theory Spec2Isabelle
  imports Complex_Main "HOL-Library.Sublist" "HOL-Library.Multiset"
begin

section \<open>Python strings\<close>

text \<open>
  A page text is a Python \<open>str\<close>. It is modelled as a \<open>string\<close> whose characters are the
  code points 0..255; code points above 255 are outside the model. The character classes
  below are the ones Python's \<open>str.isspace\<close>, \<open>str.strip\<close>, \<open>str.splitlines\<close>,
  \<open>str.lower\<close> and the \<open>re\<close> module (\<open>\s\<close>, \<open>\d\<close>, \<open>\w\<close>, \<open>\b\<close> on \<open>str\<close> patterns) use
  on that range.
\<close>

definition is_space :: "char \<Rightarrow> bool" where
  "is_space c = (let n = (of_char c :: nat) in
     (9 \<le> n \<and> n \<le> 13) \<or> (28 \<le> n \<and> n \<le> 32) \<or> n = 133 \<or> n = 160)"

definition is_digit :: "char \<Rightarrow> bool" where
  "is_digit c = (let n = (of_char c :: nat) in 48 \<le> n \<and> n \<le> 57)"

definition is_alnum :: "char \<Rightarrow> bool" where
  "is_alnum c = (let n = (of_char c :: nat) in
     (48 \<le> n \<and> n \<le> 57) \<or> (65 \<le> n \<and> n \<le> 90) \<or> (97 \<le> n \<and> n \<le> 122) \<or>
     n = 170 \<or> n = 178 \<or> n = 179 \<or> n = 181 \<or> n = 185 \<or> n = 186 \<or>
     (188 \<le> n \<and> n \<le> 190) \<or> (192 \<le> n \<and> n \<le> 214) \<or>
     (216 \<le> n \<and> n \<le> 246) \<or> 248 \<le> n)"

text \<open>\<open>\w\<close>: alphanumeric or the underscore.\<close>

definition is_word :: "char \<Rightarrow> bool" where
  "is_word c = (is_alnum c \<or> c = CHR ''_'')"

text \<open>The line boundaries of \<open>str.splitlines\<close> (a \<open>\r\n\<close> pair counts once).\<close>

definition is_linebreak :: "char \<Rightarrow> bool" where
  "is_linebreak c = (let n = (of_char c :: nat) in
     (10 \<le> n \<and> n \<le> 13) \<or> (28 \<le> n \<and> n \<le> 30) \<or> n = 133)"

text \<open>\<open>str.lower\<close>, one character at a time.\<close>

definition lower_char :: "char \<Rightarrow> char" where
  "lower_char c = (let n = (of_char c :: nat) in
     if (65 \<le> n \<and> n \<le> 90) \<or> (192 \<le> n \<and> n \<le> 222 \<and> n \<noteq> 215)
     then char_of (n + 32) else c)"

definition lower :: "string \<Rightarrow> string" where
  "lower s = map lower_char s"

text \<open>\<open>text.find(sub)\<close>: the lowest index at which \<open>sub\<close> occurs, \<open>-1\<close> when it does not.\<close>

fun find_from :: "string \<Rightarrow> string \<Rightarrow> nat \<Rightarrow> int" where
  "find_from sub [] i = (if sub = [] then int i else - 1)"
| "find_from sub (c # cs) i =
     (if prefix sub (c # cs) then int i else find_from sub cs (Suc i))"

definition find_str :: "string \<Rightarrow> string \<Rightarrow> int" where
  "find_str text sub = find_from sub text 0"

text \<open>\<open>sub in text\<close>.\<close>

fun contains :: "string \<Rightarrow> string \<Rightarrow> bool" where
  "contains [] sub = (sub = [])"
| "contains (c # cs) sub = (prefix sub (c # cs) \<or> contains cs sub)"

text \<open>\<open>s.strip()\<close>.\<close>

definition strip :: "string \<Rightarrow> string" where
  "strip s = rev (dropWhile is_space (rev (dropWhile is_space s)))"

text \<open>\<open>s.splitlines()\<close>: no entry for the empty rest after a final line boundary.\<close>

fun splitlines :: "string \<Rightarrow> string list" where
  "splitlines [] = []"
| "splitlines (c # cs) =
     (if is_linebreak c then
        (case cs of
           d # ds \<Rightarrow> if c = CHR 0x0D \<and> d = CHR 0x0A then [] # splitlines ds
                     else [] # splitlines cs
         | [] \<Rightarrow> [[]])
      else (case splitlines cs of [] \<Rightarrow> [[c]] | l # ls \<Rightarrow> (c # l) # ls))"

text \<open>\<open>' '.join(ls)\<close>.\<close>

fun join_space :: "string list \<Rightarrow> string" where
  "join_space [] = []"
| "join_space [l] = l"
| "join_space (l # ls) = l @ CHR '' '' # join_space ls"

text \<open>The exceptions the functions below raise, as values.\<close>

datatype error =
  SessionExpired             \<comment> \<open>\<open>{'error': 'Session expired'}\<close>, status 400\<close>
| NotInList                  \<comment> \<open>\<open>ValueError\<close> of \<open>list.remove\<close>, reported with status 500\<close>
| NoPdfLibrary               \<comment> \<open>\<open>Exception("No PDF library available")\<close>, status 500\<close>
| NameError                  \<comment> \<open>a name that the module does not bind\<close>
| ValueError                 \<comment> \<open>\<open>ValueError\<close> of \<open>int\<close>: too many digits\<close>

text \<open>The number a run of the digits 0..9 denotes.\<close>

definition digits_value :: "string \<Rightarrow> int" where
  "digits_value s = foldl (\<lambda>n c. 10 * n + (int (of_char c) - 48)) 0 s"

text \<open>
  \<open>int(s)\<close> on a non-empty run of the digits 0..9. A string of more than
  \<open>sys.int_max_str_digits\<close> characters (4300, the default of Python 3.11 and of the
  releases that carry the same limit) raises \<open>ValueError\<close>; leading zeros count.
\<close>

definition int_of_digits :: "string \<Rightarrow> error + int" where
  "int_of_digits s = (if 4300 < length s then Inl ValueError else Inr (digits_value s))"

section \<open>The PDF libraries\<close>

text \<open>
  \<open>PDF_LIB\<close> is fixed at import time to \<open>'pypdf2'\<close>, \<open>'pymupdf'\<close> or \<open>None\<close>; it is a
  parameter of the functions that dispatch on it. Reading a PDF is outside the model: a
  document is the list of its page texts (for the functions that only copy pages, the
  number of its pages).
\<close>

datatype pdf_lib = PyPDF2 | PyMuPDF | NoLibrary

text \<open>
  The module imports the first library with \<open>import PyPDF2 as pdf_lib\<close>, which binds the
  name \<open>pdf_lib\<close> only. Every PyPDF2 function builds its reader with the expression
  \<open>PyPDF2.PdfReader(file)\<close>, whose evaluation fails on the unbound name \<open>PyPDF2\<close>
  whatever the file is.
\<close>

definition PyPDF2_PdfReader :: "'a \<Rightarrow> error + 'a" where
  "PyPDF2_PdfReader file = Inl NameError"

section \<open>Invoice extraction\<close>

text \<open>
  The pattern \<open>\b[PR]\d{6,8}\b\<close> tried at the head of \<open>s\<close>, the character before \<open>s\<close> not
  being a word character (so that the leading \<open>\b\<close> holds: \<open>P\<close> and \<open>R\<close> are word
  characters). \<open>\d{6,8}\<close> is greedy: it takes up to 8 digits and gives them back one at a
  time, down to 6, until the trailing \<open>\b\<close> holds, that is until the next character is
  missing or is no word character.
\<close>

definition match_invoice :: "string \<Rightarrow> string option" where
  "match_invoice s = (case s of [] \<Rightarrow> None | c # rest \<Rightarrow>
     if c = CHR ''P'' \<or> c = CHR ''R'' then
       (let n = min 8 (length (takeWhile is_digit rest)) in
        case List.find (\<lambda>k. case drop k rest of [] \<Rightarrow> True | d # _ \<Rightarrow> \<not> is_word d)
               (rev [6..<Suc n]) of
          None \<Rightarrow> None
        | Some k \<Rightarrow> Some (c # take k rest))
     else None)"

text \<open>
  \<open>re.findall(pattern, text)\<close>: the matches from left to right, the scan resuming where a
  match ended. \<open>prev_word\<close> says whether the character before the position is a word
  character (after a match it is a digit).
\<close>

fun findall_invoice :: "bool \<Rightarrow> string \<Rightarrow> string list" where
  "findall_invoice prev_word [] = []"
| "findall_invoice prev_word (c # cs) =
     (case (if prev_word then None else match_invoice (c # cs)) of
        Some m \<Rightarrow> m # findall_invoice True (drop (length m - 1) cs)
      | None \<Rightarrow> findall_invoice (is_word c) cs)"

definition re_findall_invoice :: "string \<Rightarrow> string list" where
  "re_findall_invoice text = findall_invoice False text"

text \<open>
  The dictionary \<open>invoices\<close> keeps its keys in insertion order: an association list with
  distinct keys. One pass of the inner loop body:
  \<^verbatim>\<open>
  if invoice_number not in invoices:
      invoices[invoice_number] = []
  invoices[invoice_number].append(page_num)
  \<close>
\<close>

type_synonym invoices = "(string \<times> nat list) list"

definition add_invoice :: "nat \<Rightarrow> invoices \<Rightarrow> string \<Rightarrow> invoices" where
  "add_invoice page_num invoices invoice_number =
     (let invoices' = (if map_of invoices invoice_number = None
                       then invoices @ [(invoice_number, [])] else invoices)
      in map (\<lambda>(k, ps). if k = invoice_number then (k, ps @ [page_num]) else (k, ps))
           invoices')"

definition scan_invoice_page :: "invoices \<Rightarrow> nat \<times> string \<Rightarrow> invoices" where
  "scan_invoice_page invoices p =
     foldl (add_invoice (fst p)) invoices (re_findall_invoice (snd p))"

text \<open>
  The PyPDF2 backend. \<open>scan_invoices_pypdf2\<close> is the loop over
  \<open>enumerate(reader.pages)\<close> as it is written; the function does not reach it, since
  building the reader fails.
\<close>

definition scan_invoices_pypdf2 :: "string list \<Rightarrow> invoices" where
  "scan_invoices_pypdf2 reader_pages = foldl scan_invoice_page [] (enumerate 0 reader_pages)"

definition extract_invoices_pypdf2 :: "string list \<Rightarrow> error + invoices" where
  "extract_invoices_pypdf2 doc =
     (case PyPDF2_PdfReader doc of
        Inl e \<Rightarrow> Inl e
      | Inr reader_pages \<Rightarrow> Inr (scan_invoices_pypdf2 reader_pages))"

text \<open>The PyMuPDF backend.\<close>

definition extract_invoices_pymupdf :: "string list \<Rightarrow> invoices" where
  "extract_invoices_pymupdf doc =
     foldl (\<lambda>invoices page_num. scan_invoice_page invoices (page_num, doc ! page_num))
       [] [0..<length doc]"

section \<open>Statement data\<close>

text \<open>
  The dictionary \<open>categories\<close> has the four keys the segmentation creates it with; page
  numbers are Python integers, counted from 1.
\<close>

record categories =
  dnm :: "int list"
  national_single :: "int list"
  national_multi :: "int list"
  foreign :: "int list"

text \<open>An entry of \<open>pending_decisions\<close>, with the keys of the dictionary as fields.\<close>

record decision =
  page_num :: int
  company_name :: string
  close_match :: string
  total_pages :: int
  lines :: "string list"

text \<open>\<open>categories.items()\<close>, in the order the keys were inserted.\<close>

definition items :: "categories \<Rightarrow> (string \<times> int list) list" where
  "items c = [(''dnm'', dnm c), (''national_single'', national_single c),
              (''national_multi'', national_multi c), (''foreign'', foreign c)]"

text \<open>\<open>list(range(a, b))\<close> on integers.\<close>

definition py_range :: "int \<Rightarrow> int \<Rightarrow> int list" where
  "py_range a b = [a..b - 1]"

section \<open>Category assembly\<close>

text \<open>
  An output file is modelled by its name and the list of the source page indices (counted
  from 0) copied into it, in order. The functions return the files they wrote, in order;
  the list \<open>files\<close> the source returns is the list of their names.
  \<open>sorted(set(pages))\<close> is \<open>sort (remdups pages)\<close>.
\<close>

type_synonym artifact = "string \<times> int list"

definition write_category_pypdf2 :: "nat \<Rightarrow> string \<times> int list \<Rightarrow> artifact list" where
  "write_category_pypdf2 n_pages entry =
     (let name = fst entry; pages = snd entry in
      if pages \<noteq> [] then
        (let writer = map (\<lambda>p. p - 1)
               (filter (\<lambda>p. 0 \<le> p - 1 \<and> p - 1 < int n_pages) (sort (remdups pages)))
         in if length writer > 0 then [(name @ ''.pdf'', writer)] else [])
      else [])"

text \<open>
  \<open>write_categories_pypdf2\<close> is the loop over \<open>categories.items()\<close> as it is written;
  the function does not reach it, since building the reader fails.
\<close>

definition write_categories_pypdf2 :: "nat \<Rightarrow> (string \<times> int list) list \<Rightarrow> artifact list" where
  "write_categories_pypdf2 n_pages cats = concat (map (write_category_pypdf2 n_pages) cats)"

definition create_statement_pdfs_pypdf2 ::
  "nat \<Rightarrow> (string \<times> int list) list \<Rightarrow> error + artifact list" where
  "create_statement_pdfs_pypdf2 n_pages cats =
     (case PyPDF2_PdfReader n_pages of
        Inl e \<Rightarrow> Inl e
      | Inr reader_pages \<Rightarrow> Inr (write_categories_pypdf2 reader_pages cats))"

definition write_category_pymupdf :: "nat \<Rightarrow> string \<times> int list \<Rightarrow> artifact list" where
  "write_category_pymupdf n_pages entry =
     (let name = fst entry; pages = snd entry in
      if pages \<noteq> [] then
        (let output_doc = concat (map (\<lambda>p. if 0 \<le> p - 1 \<and> p - 1 < int n_pages then [p - 1] else [])
               (sort (remdups pages)))
         in if length output_doc > 0 then [(name @ ''.pdf'', output_doc)] else [])
      else [])"

definition create_statement_pdfs_pymupdf :: "nat \<Rightarrow> (string \<times> int list) list \<Rightarrow> artifact list" where
  "create_statement_pdfs_pymupdf n_pages cats = concat (map (write_category_pymupdf n_pages) cats)"

definition create_statement_pdfs ::
  "pdf_lib \<Rightarrow> nat \<Rightarrow> (string \<times> int list) list \<Rightarrow> error + artifact list" where
  "create_statement_pdfs lib n_pages cats =
     (case lib of
        PyPDF2 \<Rightarrow> create_statement_pdfs_pypdf2 n_pages cats
      | PyMuPDF \<Rightarrow> Inr (create_statement_pdfs_pymupdf n_pages cats)
      | NoLibrary \<Rightarrow> Inl NoPdfLibrary)"

section \<open>Resolving a pending decision\<close>

text \<open>
  \<open>session['temp_data']\<close>. The file at \<open>pdf_path\<close> is read only for its pages; the
  parameter \<open>pages_at\<close> of the handler gives the number of pages of the PDF at a path.
\<close>

record temp_data =
  pdf_path :: string
  session_categories :: categories
  pending :: "decision list"

datatype reply =
  Complete "string list"     \<comment> \<open>\<open>{'status': 'complete', 'files': files}\<close>\<close>
| Continue nat               \<comment> \<open>\<open>{'status': 'continue', 'remaining': len(pending)}\<close>\<close>

text \<open>The \<open>if action == ...\<close> chain of the handler, on the category lists.\<close>

definition extend_category :: "string \<Rightarrow> decision \<Rightarrow> categories \<Rightarrow> categories" where
  "extend_category action statement cats =
     (let pages = py_range (page_num statement) (page_num statement + total_pages statement) in
      if action = ''dnm'' then cats\<lparr>dnm := dnm cats @ pages\<rparr>
      else if action = ''foreign'' then cats\<lparr>foreign := foreign cats @ pages\<rparr>
      else if action = ''national'' then
        (if total_pages statement = 1
         then cats\<lparr>national_single := national_single cats @ pages\<rparr>
         else cats\<lparr>national_multi := national_multi cats @ pages\<rparr>)
      else cats)"

text \<open>
  The handler of \<open>/api/statement-decision\<close>, for a request whose \<open>statement\<close> is a
  dictionary with the five keys. It returns the reply or the error it reports, and the
  session data as it stands in memory when the handler returns: \<open>categories\<close> and
  \<open>pending\<close> are the lists held by \<open>temp_data\<close>, changed in place, and an exception does
  not undo a change made before it.
\<close>

definition statement_decision ::
  "pdf_lib \<Rightarrow> (string \<Rightarrow> nat) \<Rightarrow> string \<Rightarrow> decision \<Rightarrow> temp_data option
     \<Rightarrow> (error + reply) \<times> temp_data option" where
  "statement_decision lib pages_at action statement session =
     (case session of
        None \<Rightarrow> (Inl SessionExpired, None)
      | Some td \<Rightarrow>
          (let td1 = td\<lparr>session_categories :=
                         extend_category action statement (session_categories td)\<rparr> in
           if statement \<notin> set (pending td1) then (Inl NotInList, Some td1)
           else
             (let td2 = td1\<lparr>pending := remove1 statement (pending td1)\<rparr> in
              if pending td2 = [] then
                (case create_statement_pdfs lib (pages_at (pdf_path td2))
                        (items (session_categories td2)) of
                   Inl e \<Rightarrow> (Inl e, Some td2)
                 | Inr files \<Rightarrow> (Inr (Complete (map fst files)), Some td2))
              else (Inr (Continue (length (pending td2))), Some td2))))"

text \<open>The pending queue of a session; a missing session has none.\<close>

definition queue_of :: "temp_data option \<Rightarrow> decision list" where
  "queue_of session = (case session of None \<Rightarrow> [] | Some td \<Rightarrow> pending td)"

section \<open>Close matches\<close>

text \<open>
  \<open>get_close_matches\<close> is \<open>difflib.get_close_matches\<close> of Python's standard library; the
  definitions below follow \<open>difflib.SequenceMatcher\<close> with \<open>isjunk=None\<close> and
  \<open>autojunk=True\<close>, where \<open>a\<close> is the registry entry (\<open>set_seq1\<close>) and \<open>b\<close> the name
  looked up (\<open>set_seq2\<close>). Scores are the exact quotients; the library rounds them to
  floating point, which keeps their order.

  \<open>__chain_b\<close>: an element of \<open>b\<close> is popular when \<open>b\<close> has at least 200 elements and the
  element occurs more than \<open>len(b) // 100 + 1\<close> times. \<open>b2j\<close> maps an element to the
  ascending list of its indices in \<open>b\<close>; popular elements are removed from it.
\<close>

definition popular :: "string \<Rightarrow> char \<Rightarrow> bool" where
  "popular b elt = (200 \<le> length b \<and> length b div 100 + 1 < count_list b elt)"

definition b2j :: "string \<Rightarrow> char \<Rightarrow> nat list" where
  "b2j b elt = (if popular b elt then [] else filter (\<lambda>j. b ! j = elt) [0..<length b])"

text \<open>
  \<open>find_longest_match\<close>. The state of the scan is \<open>j2len\<close> (a dictionary read with
  \<open>get(j-1, 0)\<close>; every stored length is positive, so a missing key is the value 0) and
  the best block so far. \<open>lm_inner\<close> is the loop over \<open>b2j.get(a[i], nothing)\<close> with its
  \<open>continue\<close> and \<open>break\<close>, \<open>lm_outer\<close> the body of the loop over \<open>i\<close>.
\<close>

type_synonym lm_state = "(nat \<Rightarrow> nat) \<times> nat \<times> nat \<times> nat"

fun lm_inner :: "(nat \<Rightarrow> nat) \<Rightarrow> nat \<Rightarrow> nat \<Rightarrow> nat \<Rightarrow> nat list \<Rightarrow> lm_state \<Rightarrow> lm_state" where
  "lm_inner j2len i blo bhi [] s = s"
| "lm_inner j2len i blo bhi (j # js) (newj2len, besti, bestj, bestsize) =
     (if j < blo then lm_inner j2len i blo bhi js (newj2len, besti, bestj, bestsize)
      else if bhi \<le> j then (newj2len, besti, bestj, bestsize)
      else
        (let k = (if j = 0 then 0 else j2len (j - 1)) + 1 in
         if bestsize < k
         then lm_inner j2len i blo bhi js (newj2len(j := k), Suc i - k, Suc j - k, k)
         else lm_inner j2len i blo bhi js (newj2len(j := k), besti, bestj, bestsize)))"

definition lm_outer :: "string \<Rightarrow> string \<Rightarrow> nat \<Rightarrow> nat \<Rightarrow> lm_state \<Rightarrow> nat \<Rightarrow> lm_state" where
  "lm_outer a b blo bhi s i =
     (case s of (j2len, besti, bestj, bestsize) \<Rightarrow>
        lm_inner j2len i blo bhi (b2j b (a ! i)) (\<lambda>_. 0, besti, bestj, bestsize))"

text \<open>
  The two loops that extend the best block by equal elements on each end. The two loops
  after them extend by junk elements; with \<open>isjunk=None\<close> no element is junk, and they
  do nothing.
\<close>

function extend_left :: "string \<Rightarrow> string \<Rightarrow> nat \<Rightarrow> nat \<Rightarrow> nat \<times> nat \<times> nat \<Rightarrow> nat \<times> nat \<times> nat" where
  "extend_left a b alo blo (besti, bestj, bestsize) =
     (if alo < besti \<and> blo < bestj \<and> a ! (besti - 1) = b ! (bestj - 1)
      then extend_left a b alo blo (besti - 1, bestj - 1, bestsize + 1)
      else (besti, bestj, bestsize))"
  by pat_completeness auto
termination
  by (relation "measure (\<lambda>(a, b, alo, blo, besti, bestj, bestsize). besti)") auto

declare extend_left.simps [simp del]

function extend_right :: "string \<Rightarrow> string \<Rightarrow> nat \<Rightarrow> nat \<Rightarrow> nat \<times> nat \<times> nat \<Rightarrow> nat \<times> nat \<times> nat" where
  "extend_right a b ahi bhi (besti, bestj, bestsize) =
     (if besti + bestsize < ahi \<and> bestj + bestsize < bhi
         \<and> a ! (besti + bestsize) = b ! (bestj + bestsize)
      then extend_right a b ahi bhi (besti, bestj, bestsize + 1)
      else (besti, bestj, bestsize))"
  by pat_completeness auto
termination
  by (relation "measure (\<lambda>(a, b, ahi, bhi, besti, bestj, bestsize). ahi - (besti + bestsize))") auto

declare extend_right.simps [simp del]

definition find_longest_match :: "string \<Rightarrow> string \<Rightarrow> nat \<Rightarrow> nat \<Rightarrow> nat \<Rightarrow> nat \<Rightarrow> nat \<times> nat \<times> nat" where
  "find_longest_match a b alo ahi blo bhi =
     (case foldl (lm_outer a b blo bhi) (\<lambda>_. 0, alo, blo, 0) [alo..<ahi] of
        (j2len, besti, bestj, bestsize) \<Rightarrow>
          extend_right a b ahi bhi (extend_left a b alo blo (besti, bestj, bestsize)))"

text \<open>
  The block found lies in the window it was searched in; the recursion of
  \<open>get_matching_blocks\<close> terminates for that reason.
\<close>

definition lm_inv :: "nat \<Rightarrow> nat \<Rightarrow> nat \<Rightarrow> nat \<Rightarrow> lm_state \<Rightarrow> bool" where
  "lm_inv alo blo bhi n s = (case s of (j2len, besti, bestj, bestsize) \<Rightarrow>
     (\<forall>j. j2len j \<le> n \<and> j2len j \<le> Suc j - blo) \<and> alo \<le> besti \<and> blo \<le> bestj \<and>
     (if bestsize = 0 then besti = alo \<and> bestj = blo
      else besti + bestsize \<le> alo + n \<and> bestj + bestsize \<le> bhi))"

lemma lm_inner_inv:
  assumes "\<forall>j. j2len j \<le> n \<and> j2len j \<le> Suc j - blo"
    and "i = alo + n"
    and "lm_inv alo blo bhi (Suc n) s"
  shows "lm_inv alo blo bhi (Suc n) (lm_inner j2len i blo bhi js s)"
  using assms(3)
proof (induction js arbitrary: s)
  case Nil
  then show ?case by simp
next
  case (Cons j js)
  obtain nj besti bestj bestsize where s: "s = (nj, besti, bestj, bestsize)"
    by (cases s) auto
  show ?case
  proof (cases "j < blo \<or> bhi \<le> j")
    case True
    with Cons s show ?thesis by auto
  next
    case False
    define k where "k = (if j = 0 then 0 else j2len (j - 1)) + 1"
    have k1: "k \<le> Suc n" using assms(1) by (auto simp: k_def)
    have k2: "k \<le> Suc j - blo"
    proof (cases "j = 0")
      case True
      with False show ?thesis by (simp add: k_def)
    next
      case j: False
      from assms(1) have "j2len (j - 1) \<le> Suc (j - 1) - blo" by blast
      with j False show ?thesis unfolding k_def by simp arith
    qed
    have k0: "0 < k" by (simp add: k_def)
    have upd: "lm_inv alo blo bhi (Suc n) (nj(j := k), besti, bestj, bestsize)"
      using Cons.prems k1 k2 by (auto simp: lm_inv_def s)
    have new: "lm_inv alo blo bhi (Suc n) (nj(j := k), Suc i - k, Suc j - k, k)"
      using Cons.prems k1 k2 k0 False assms(2) by (auto simp: lm_inv_def s)
    show ?thesis
      using False Cons.IH [OF upd] Cons.IH [OF new]
      by (simp add: s k_def Let_def)
  qed
qed

lemma lm_inv_mono: "lm_inv alo blo bhi n (j2len, t) \<Longrightarrow> lm_inv alo blo bhi (Suc n) (\<lambda>_. 0, t)"
  by (auto simp: lm_inv_def)

lemma lm_outer_inv:
  assumes "lm_inv alo blo bhi n s" and "i = alo + n"
  shows "lm_inv alo blo bhi (Suc n) (lm_outer a b blo bhi s i)"
proof -
  obtain j2len t where s: "s = (j2len, t)" by (cases s) auto
  obtain besti bestj bestsize where t: "t = (besti, bestj, bestsize)" by (cases t) auto
  have 1: "\<forall>j. j2len j \<le> n \<and> j2len j \<le> Suc j - blo"
    using assms(1) by (simp add: lm_inv_def s t)
  have 2: "lm_inv alo blo bhi (Suc n) (\<lambda>_. 0, t)"
    using assms(1) unfolding s by (rule lm_inv_mono)
  show ?thesis
    using lm_inner_inv [OF 1 assms(2) 2] by (simp add: lm_outer_def s t)
qed

lemma lm_rows_inv:
  "lm_inv alo blo bhi n s \<Longrightarrow>
   lm_inv alo blo bhi (n + m) (foldl (lm_outer a b blo bhi) s [alo + n..<alo + n + m])"
proof (induction m arbitrary: n s)
  case 0
  then show ?case by simp
next
  case (Suc m)
  have "[alo + n..<alo + n + Suc m] = (alo + n) # [alo + Suc n..<alo + Suc n + m]"
    by (simp add: upt_rec)
  moreover have "lm_inv alo blo bhi (Suc n) (lm_outer a b blo bhi s (alo + n))"
    using Suc.prems by (rule lm_outer_inv) simp
  ultimately show ?case
    using Suc.IH [of "Suc n" "lm_outer a b blo bhi s (alo + n)"] by simp
qed

definition block_ok :: "nat \<Rightarrow> nat \<Rightarrow> nat \<Rightarrow> nat \<Rightarrow> nat \<times> nat \<times> nat \<Rightarrow> bool" where
  "block_ok alo ahi blo bhi t = (case t of (i, j, k) \<Rightarrow>
     alo \<le> i \<and> blo \<le> j \<and>
     (if k = 0 then i = alo \<and> j = blo else i + k \<le> ahi \<and> j + k \<le> bhi))"

lemma extend_left_ok:
  "block_ok alo ahi blo bhi t \<Longrightarrow> block_ok alo ahi blo bhi (extend_left a b alo blo t)"
proof (induction a b alo blo t rule: extend_left.induct)
  case (1 a b alo blo besti bestj bestsize)
  show ?case
  proof (cases "alo < besti \<and> blo < bestj \<and> a ! (besti - 1) = b ! (bestj - 1)")
    case True
    have "block_ok alo ahi blo bhi (besti - 1, bestj - 1, bestsize + 1)"
      using "1.prems" True by (auto simp: block_ok_def split: if_splits)
    with "1.IH" True show ?thesis by (subst extend_left.simps) simp
  next
    case False
    with "1.prems" show ?thesis by (subst extend_left.simps) auto
  qed
qed

lemma extend_right_ok:
  "block_ok alo ahi blo bhi t \<Longrightarrow> block_ok alo ahi blo bhi (extend_right a b ahi bhi t)"
proof (induction a b ahi bhi t rule: extend_right.induct)
  case (1 a b ahi bhi besti bestj bestsize)
  show ?case
  proof (cases "besti + bestsize < ahi \<and> bestj + bestsize < bhi
         \<and> a ! (besti + bestsize) = b ! (bestj + bestsize)")
    case True
    have "block_ok alo ahi blo bhi (besti, bestj, bestsize + 1)"
      using "1.prems" True by (auto simp: block_ok_def split: if_splits)
    with "1.IH" True show ?thesis by (subst extend_right.simps) simp
  next
    case False
    with "1.prems" show ?thesis by (subst extend_right.simps) auto
  qed
qed

lemma find_longest_match_ok:
  "block_ok alo ahi blo bhi (find_longest_match a b alo ahi blo bhi)"
proof -
  define s where "s = foldl (lm_outer a b blo bhi) (\<lambda>_. 0, alo, blo, 0) [alo..<ahi]"
  obtain j2len t where st: "s = (j2len, t)" by (cases s) auto
  have init: "lm_inv alo blo bhi 0 (\<lambda>_. 0, alo, blo, 0)"
    by (simp add: lm_inv_def)
  have "lm_inv alo blo bhi (ahi - alo) s"
  proof (cases "alo \<le> ahi")
    case True
    with lm_rows_inv [OF init, of "ahi - alo" a b] show ?thesis by (simp add: s_def)
  next
    case False
    with init show ?thesis by (simp add: s_def)
  qed
  then have "block_ok alo ahi blo bhi t"
    by (cases t) (auto simp: lm_inv_def block_ok_def st split: if_splits)
  then have "block_ok alo ahi blo bhi (extend_right a b ahi bhi (extend_left a b alo blo t))"
    by (intro extend_right_ok extend_left_ok)
  moreover have "find_longest_match a b alo ahi blo bhi =
      extend_right a b ahi bhi (extend_left a b alo blo t)"
    using st by (cases t) (simp add: find_longest_match_def s_def [symmetric])
  ultimately show ?thesis by simp
qed

lemma find_longest_match_left:
  "(i, j, k) = find_longest_match a b alo ahi blo bhi \<Longrightarrow> k \<noteq> 0 \<Longrightarrow> alo < i \<Longrightarrow>
   i - alo < ahi - alo"
  using find_longest_match_ok [of alo ahi blo bhi a b]
  by (auto simp: block_ok_def dest!: sym [of "(i, j, k)"])

lemma find_longest_match_right:
  "(i, j, k) = find_longest_match a b alo ahi blo bhi \<Longrightarrow> k \<noteq> 0 \<Longrightarrow> i + k < ahi \<Longrightarrow>
   ahi - (i + k) < ahi - alo"
  using find_longest_match_ok [of alo ahi blo bhi a b]
  by (auto simp: block_ok_def dest!: sym [of "(i, j, k)"])

text \<open>
  \<open>get_matching_blocks\<close> keeps a stack of windows and sorts the blocks it finds; the
  windows left and right of a block are searched independently, which is this recursion,
  and the blocks come out in ascending order. (The source then merges adjacent blocks
  and appends a block of size 0; both leave the sum of the sizes as it is.)
\<close>

function matching_blocks ::
  "string \<Rightarrow> string \<Rightarrow> nat \<Rightarrow> nat \<Rightarrow> nat \<Rightarrow> nat \<Rightarrow> (nat \<times> nat \<times> nat) list" where
  "matching_blocks a b alo ahi blo bhi =
     (case find_longest_match a b alo ahi blo bhi of
        (i, j, k) \<Rightarrow>
          if k \<noteq> 0 then
            (if alo < i \<and> blo < j then matching_blocks a b alo i blo j else []) @
            [(i, j, k)] @
            (if i + k < ahi \<and> j + k < bhi then matching_blocks a b (i + k) ahi (j + k) bhi
             else [])
          else [])"
  by pat_completeness auto
termination
  by (relation "measure (\<lambda>(a, b, alo, ahi, blo, bhi). ahi - alo)")
     (auto intro: find_longest_match_left find_longest_match_right)

declare matching_blocks.simps [simp del]

text \<open>\<open>_calculate_ratio\<close>, \<open>ratio\<close>, \<open>quick_ratio\<close> and \<open>real_quick_ratio\<close>.\<close>

definition calculate_ratio :: "nat \<Rightarrow> nat \<Rightarrow> rat" where
  "calculate_ratio matches len = (if len \<noteq> 0 then 2 * of_nat matches / of_nat len else 1)"

definition ratio :: "string \<Rightarrow> string \<Rightarrow> rat" where
  "ratio a b =
     (let matches = sum_list (map (\<lambda>(i, j, k). k) (matching_blocks a b 0 (length a) 0 (length b)))
      in calculate_ratio matches (length a + length b))"

definition quick_step :: "string \<Rightarrow> (char \<rightharpoonup> int) \<times> nat \<Rightarrow> char \<Rightarrow> (char \<rightharpoonup> int) \<times> nat" where
  "quick_step b s elt = (case s of (avail, matches) \<Rightarrow>
     (let numb = (case avail elt of Some v \<Rightarrow> v | None \<Rightarrow> int (count_list b elt))
      in (avail(elt \<mapsto> numb - 1), if 0 < numb then matches + 1 else matches)))"

definition quick_ratio :: "string \<Rightarrow> string \<Rightarrow> rat" where
  "quick_ratio a b =
     calculate_ratio (snd (foldl (quick_step b) (Map.empty, 0) a)) (length a + length b)"

definition real_quick_ratio :: "string \<Rightarrow> string \<Rightarrow> rat" where
  "real_quick_ratio a b = calculate_ratio (min (length a) (length b)) (length a + length b)"

text \<open>
  \<open>heapq.nlargest(1, result)\<close> is \<open>max(result)\<close>: the first of the greatest tuples
  \<open>(score, x)\<close>. Tuples compare by score, then by the string; strings compare by code
  points, a proper prefix being smaller.
\<close>

fun str_less :: "string \<Rightarrow> string \<Rightarrow> bool" where
  "str_less [] [] = False"
| "str_less [] (y # ys) = True"
| "str_less (x # xs) [] = False"
| "str_less (x # xs) (y # ys) = ((of_char x :: nat) < of_char y \<or> (x = y \<and> str_less xs ys))"

definition tuple_gt :: "rat \<times> string \<Rightarrow> rat \<times> string \<Rightarrow> bool" where
  "tuple_gt t u = (fst u < fst t \<or> (fst t = fst u \<and> str_less (snd u) (snd t)))"

definition nlargest1 :: "(rat \<times> string) list \<Rightarrow> (rat \<times> string) list" where
  "nlargest1 result =
     (case result of [] \<Rightarrow> []
      | r # rs \<Rightarrow> [foldl (\<lambda>best item. if tuple_gt item best then item else best) r rs])"

text \<open>\<open>get_close_matches(word, possibilities, n=1, cutoff)\<close>.\<close>

definition get_close_matches :: "string \<Rightarrow> string list \<Rightarrow> rat \<Rightarrow> string list" where
  "get_close_matches word possibilities cutoff =
     (let result = map (\<lambda>x. (ratio x word, x))
            (filter (\<lambda>x. cutoff \<le> real_quick_ratio x word \<and> cutoff \<le> quick_ratio x word
                          \<and> cutoff \<le> ratio x word) possibilities)
      in map snd (nlargest1 result))"

text \<open>
  For the proofs about \<open>ratio\<close>: \<open>blk a b i j k\<close> says that \<open>a[i:i+k]\<close> and
  \<open>b[j:j+k]\<close> agree; \<open>lm_match\<close> is the invariant of the scan of
  \<open>find_longest_match\<close> (every length in \<open>j2len\<close>, and the best block, is a block of
  equal elements); \<open>window xs lo hi\<close> is \<open>xs[lo:hi]\<close>; \<open>block_sizes\<close> is the sum
  \<open>ratio\<close> takes over the matching blocks.
\<close>

definition blk :: "string \<Rightarrow> string \<Rightarrow> nat \<Rightarrow> nat \<Rightarrow> nat \<Rightarrow> bool" where
  "blk a b i j k = (\<forall>t<k. a ! (i + t) = b ! (j + t))"

definition lm_match :: "string \<Rightarrow> string \<Rightarrow> nat \<Rightarrow> lm_state \<Rightarrow> bool" where
  "lm_match a b i s = (case s of (j2len, besti, bestj, bestsize) \<Rightarrow>
     (\<forall>j. j2len j \<le> i \<and> j2len j \<le> Suc j \<and> blk a b (i - j2len j) (Suc j - j2len j) (j2len j))
     \<and> blk a b besti bestj bestsize)"

definition window :: "string \<Rightarrow> nat \<Rightarrow> nat \<Rightarrow> string" where
  "window xs lo hi = take (hi - lo) (drop lo xs)"

definition block_sizes :: "(nat \<times> nat \<times> nat) list \<Rightarrow> nat" where
  "block_sizes blocks = sum_list (map (\<lambda>(i, j, k). k) blocks)"

text \<open>
  The candidate a close match has to be: an entry of the registry whose similarity to
  the name is at least 0.8, such that no entry scores higher and, among the entries
  with the same score, none is a greater string.
\<close>

definition best_match :: "string list \<Rightarrow> string \<Rightarrow> string \<Rightarrow> bool" where
  "best_match names w m =
     (m \<in> set names \<and> 4 / 5 \<le> ratio m w \<and>
      list_all (\<lambda>x. ratio x w < 4 / 5 \<or> ratio x w < ratio m w
                  \<or> (ratio x w = ratio m w \<and> \<not> str_less m x)) names)"

section \<open>Statement segmentation\<close>

definition start_markers :: "string list" where
  "start_markers = [''914.949.9618'', ''302.703.8961'', ''www.unitedcorporate.com'',
     ''AR@UNITEDCORPORATE.COM'']"

definition end_marker :: string where
  "end_marker = ''STATEMENT OF OPEN INVOICE(S)''"

definition US_STATES :: "string list" where
  "US_STATES = [''AL'', ''AK'', ''AZ'', ''AR'', ''CA'', ''CO'', ''CT'', ''DE'', ''FL'', ''GA'',
     ''HI'', ''ID'', ''IL'', ''IN'', ''IA'', ''KS'', ''KY'', ''LA'', ''ME'', ''MD'', ''MA'', ''MI'',
     ''MN'', ''MS'', ''MO'', ''MT'', ''NE'', ''NV'', ''NH'', ''NJ'', ''NM'', ''NY'', ''NC'', ''ND'',
     ''OH'', ''OK'', ''OR'', ''PA'', ''RI'', ''SC'', ''SD'', ''TN'', ''TX'', ''UT'', ''VT'', ''VA'',
     ''WA'', ''WV'', ''WI'', ''WY'', ''DC'']"

text \<open>
  The pattern \<open>Page\s*(\d+)\s*of\s*(\d+)\<close> with \<open>re.IGNORECASE\<close>, tried at the head of
  \<open>s\<close>; the result is the pair of the two groups. Every greedy repetition is followed by
  a character it cannot match itself (a digit after \<open>\s*\<close>, a space or \<open>o\<close> after
  \<open>\d+\<close>), so giving characters back never helps and the longest runs are the only try.
\<close>

definition match_page :: "string \<Rightarrow> (string \<times> string) option" where
  "match_page s =
     (if lower (take 4 s) = ''page'' then
        (let s1 = dropWhile is_space (drop 4 s);
             g1 = takeWhile is_digit s1;
             s2 = dropWhile is_space (dropWhile is_digit s1)
         in if g1 \<noteq> [] \<and> lower (take 2 s2) = ''of'' then
              (let s3 = dropWhile is_space (drop 2 s2);
                   g2 = takeWhile is_digit s3
               in if g2 \<noteq> [] then Some (g1, g2) else None)
            else None)
      else None)"

text \<open>\<open>re.search\<close>: the match at the leftmost position that has one.\<close>

fun re_search_page :: "string \<Rightarrow> (string \<times> string) option" where
  "re_search_page [] = None"
| "re_search_page (c # cs) =
     (case match_page (c # cs) of Some g \<Rightarrow> Some g | None \<Rightarrow> re_search_page cs)"

text \<open>
  \<open>total_pages = int(page_match.group(2)) if page_match else 1\<close>, the first statements
  of a pass of either loop; \<open>int\<close> can raise.
\<close>

definition total_pages_of :: "string \<Rightarrow> error + int" where
  "total_pages_of text =
     (case re_search_page text of Some g \<Rightarrow> int_of_digits (snd g) | None \<Rightarrow> Inr 1)"

text \<open>
  What a match of the pattern looks like, for the theorems about it: \<open>page\<close> and
  \<open>of\<close> in either case, runs of spaces between the parts, two non-empty runs of
  digits, the second one as long as it can be.
\<close>

definition page_pattern :: "string \<Rightarrow> string \<Rightarrow> string \<Rightarrow> bool" where
  "page_pattern s g1 g2 =
     (\<exists>pre p w1 w2 f w3 rest. s = pre @ p @ w1 @ g1 @ w2 @ f @ w3 @ g2 @ rest
        \<and> lower p = ''page'' \<and> lower f = ''of''
        \<and> list_all is_space w1 \<and> list_all is_space w2 \<and> list_all is_space w3
        \<and> g1 \<noteq> [] \<and> list_all is_digit g1 \<and> g2 \<noteq> [] \<and> list_all is_digit g2
        \<and> (case rest of [] \<Rightarrow> True | c # _ \<Rightarrow> \<not> is_digit c))"

text \<open>
  \<open>start_idx = min((text.find(marker) for marker in start_markers
  if text.find(marker) != -1), default=-1)\<close> and \<open>end_idx = text.find(end_marker)\<close>.
\<close>

definition start_index :: "string \<Rightarrow> int" where
  "start_index text =
     (case filter (\<lambda>i. i \<noteq> - 1) (map (find_str text) start_markers) of
        [] \<Rightarrow> - 1
      | i # rest \<Rightarrow> fold min rest i)"

definition end_index :: "string \<Rightarrow> int" where
  "end_index text = find_str text end_marker"

text \<open>\<open>text[i:j]\<close> for indices that are not negative.\<close>

definition slice :: "string \<Rightarrow> int \<Rightarrow> int \<Rightarrow> string" where
  "slice text i j = drop (nat i) (take (nat j) text)"

text \<open>
  \<open>lines = [line.strip() for line in extracted_text.splitlines() if line.strip()]\<close>, for
  the text between the two indices.
\<close>

definition record_lines :: "string \<Rightarrow> string list" where
  "record_lines text =
     (let extracted_text = strip (slice text (start_index text) (end_index text))
      in filter (\<lambda>l. l \<noteq> []) (map strip (splitlines extracted_text)))"

text \<open>
  The two nested tests both backends make before they classify: the lines of the record
  when the page has one, \<open>None\<close> when the page is passed over.
\<close>

definition detect :: "string \<Rightarrow> string list option" where
  "detect text =
     (let start_idx = start_index text; end_idx = end_index text in
      if start_idx \<noteq> - 1 \<and> end_idx \<noteq> - 1 \<and> start_idx < end_idx then
        (let ls = record_lines text in if ls \<noteq> [] then Some ls else None)
      else None)"

record seg_result =
  categories :: categories
  pending_decisions :: "decision list"

text \<open>
  The PyPDF2 backend. The pages of a record are \<open>[page_num + 1]\<close> and a pending
  decision gets \<open>'total_pages': 1\<close>; the page count parsed from the text is not used
  (\<open># PyPDF2 processes page by page\<close>). \<open>heuristic_pypdf2\<close> is the innermost
  \<open>if\<close>/\<open>elif\<close>/\<open>else\<close>, reached when the name has no exact and no close match.
\<close>

definition heuristic_pypdf2 :: "nat \<Rightarrow> string \<Rightarrow> string list \<Rightarrow> seg_result \<Rightarrow> seg_result" where
  "heuristic_pypdf2 page_no text ls res =
     (let pages = [int page_no + 1]; cats = categories res in
      if contains (lower text) ''email''
      then res\<lparr>categories := cats\<lparr>dnm := dnm cats @ pages\<rparr>\<rparr>
      else if list_ex (contains (join_space (drop 1 ls))) US_STATES
      then res\<lparr>categories := cats\<lparr>national_single := national_single cats @ pages\<rparr>\<rparr>
      else res\<lparr>categories := cats\<lparr>foreign := foreign cats @ pages\<rparr>\<rparr>)"

definition classify_pypdf2 ::
  "string list \<Rightarrow> nat \<Rightarrow> string \<Rightarrow> string \<Rightarrow> string list \<Rightarrow> seg_result \<Rightarrow> seg_result" where
  "classify_pypdf2 company_names page_no text company ls res =
     (let pages = [int page_no + 1]; cats = categories res in
      if company \<in> set company_names then res\<lparr>categories := cats\<lparr>dnm := dnm cats @ pages\<rparr>\<rparr>
      else
        (case get_close_matches company company_names (4 / 5) of
           m # _ \<Rightarrow>
             res\<lparr>pending_decisions := pending_decisions res @
               [\<lparr>page_num = int page_no + 1, company_name = company, close_match = m,
                 total_pages = 1, lines = take 5 ls\<rparr>]\<rparr>
         | [] \<Rightarrow> heuristic_pypdf2 page_no text ls res))"

text \<open>
  The statements of one pass of the loop over \<open>enumerate(reader.pages)\<close> that follow
  the computation of \<open>total_pages\<close>; \<open>company_name = lines[0]\<close>.
\<close>

definition page_pypdf2 :: "string list \<Rightarrow> seg_result \<Rightarrow> nat \<times> string \<Rightarrow> seg_result" where
  "page_pypdf2 company_names res p =
     (case detect (snd p) of
        None \<Rightarrow> res
      | Some ls \<Rightarrow> classify_pypdf2 company_names (fst p) (snd p) (hd ls) ls res)"

definition no_results :: seg_result where
  "no_results = \<lparr>categories = \<lparr>dnm = [], national_single = [], national_multi = [],
     foreign = []\<rparr>, pending_decisions = []\<rparr>"

text \<open>
  One whole pass: it computes \<open>total_pages\<close> first, and an exception ends the loop.
  \<open>scan_pypdf2\<close> is the loop as it is written.
\<close>

definition pass_pypdf2 ::
  "string list \<Rightarrow> error + seg_result \<Rightarrow> nat \<times> string \<Rightarrow> error + seg_result" where
  "pass_pypdf2 company_names r p =
     (case r of
        Inl e \<Rightarrow> Inl e
      | Inr res \<Rightarrow>
          (case total_pages_of (snd p) of
             Inl e \<Rightarrow> Inl e
           | Inr tot \<Rightarrow> Inr (page_pypdf2 company_names res p)))"

definition scan_pypdf2 :: "string list \<Rightarrow> string list \<Rightarrow> error + seg_result" where
  "scan_pypdf2 company_names reader_pages =
     foldl (pass_pypdf2 company_names) (Inr no_results) (enumerate 0 reader_pages)"


text \<open>
  The PyMuPDF backend. The pages of a record are
  \<open>range(page_num + 1, page_num + 1 + total_pages)\<close>, and a pending decision gets the
  parsed page count.
\<close>

definition heuristic_pymupdf ::
  "nat \<Rightarrow> string \<Rightarrow> int \<Rightarrow> string list \<Rightarrow> seg_result \<Rightarrow> seg_result" where
  "heuristic_pymupdf page_no text tot ls res =
     (let pages = py_range (int page_no + 1) (int page_no + 1 + tot); cats = categories res in
      if contains (lower text) ''email''
      then res\<lparr>categories := cats\<lparr>dnm := dnm cats @ pages\<rparr>\<rparr>
      else if list_ex (contains (join_space (drop 1 ls))) US_STATES
      then (if tot = 1
            then res\<lparr>categories := cats\<lparr>national_single := national_single cats @ pages\<rparr>\<rparr>
            else res\<lparr>categories := cats\<lparr>national_multi := national_multi cats @ pages\<rparr>\<rparr>)
      else res\<lparr>categories := cats\<lparr>foreign := foreign cats @ pages\<rparr>\<rparr>)"

definition classify_pymupdf ::
  "string list \<Rightarrow> nat \<Rightarrow> string \<Rightarrow> int \<Rightarrow> string \<Rightarrow> string list \<Rightarrow> seg_result
     \<Rightarrow> seg_result" where
  "classify_pymupdf company_names page_no text tot company ls res =
     (let pages = py_range (int page_no + 1) (int page_no + 1 + tot); cats = categories res in
      if company \<in> set company_names then res\<lparr>categories := cats\<lparr>dnm := dnm cats @ pages\<rparr>\<rparr>
      else
        (case get_close_matches company company_names (4 / 5) of
           m # _ \<Rightarrow>
             res\<lparr>pending_decisions := pending_decisions res @
               [\<lparr>page_num = int page_no + 1, company_name = company, close_match = m,
                 total_pages = tot, lines = take 5 ls\<rparr>]\<rparr>
         | [] \<Rightarrow> heuristic_pymupdf page_no text tot ls res))"

text \<open>
  The statements of one pass of the \<open>while\<close> loop between the computation of
  \<open>total_pages\<close> (the value \<open>tot\<close>) and the step of the page counter.
\<close>

definition page_pymupdf ::
  "string list \<Rightarrow> nat \<Rightarrow> string \<Rightarrow> int \<Rightarrow> seg_result \<Rightarrow> seg_result" where
  "page_pymupdf company_names page_no text tot res =
     (case detect text of
        None \<Rightarrow> res
      | Some ls \<Rightarrow> classify_pymupdf company_names page_no text tot (hd ls) ls res)"

text \<open>
  \<open>page_num += total_pages if page_match else 1\<close>, as the number of pages the counter
  moves by; the page count is never negative.
\<close>

definition advance :: "string \<Rightarrow> int \<Rightarrow> nat" where
  "advance text tot = (if re_search_page text \<noteq> None then nat tot else 1)"

text \<open>
  The \<open>while page_num < len(doc)\<close> loop. Nothing bounds the number of its passes, so the
  result is an option: \<open>None\<close> when the loop does not end. A pass computes
  \<open>total_pages\<close> first, and an exception ends the loop.
\<close>

partial_function (option) scan_pymupdf ::
  "string list \<Rightarrow> string list \<Rightarrow> nat \<Rightarrow> seg_result \<Rightarrow> (error + seg_result) option" where
  "scan_pymupdf company_names doc page_no res =
     (if page_no < length doc then
        (case total_pages_of (doc ! page_no) of
           Inl e \<Rightarrow> Some (Inl e)
         | Inr tot \<Rightarrow>
             scan_pymupdf company_names doc (page_no + advance (doc ! page_no) tot)
               (page_pymupdf company_names page_no (doc ! page_no) tot res))
      else Some (Inr res))"

declare scan_pymupdf.simps [code]

definition process_statements_pymupdf ::
  "string list \<Rightarrow> string list \<Rightarrow> (error + seg_result) option" where
  "process_statements_pymupdf company_names doc = scan_pymupdf company_names doc 0 no_results"


text \<open>
  The tokens of a string, in the sense of the specification's heuristic tier: the
  maximal runs of word characters.
\<close>

function words_of :: "string \<Rightarrow> string list" where
  "words_of [] = []"
| "words_of (c # cs) =
     (if is_word c then takeWhile is_word (c # cs) # words_of (dropWhile is_word cs)
      else words_of cs)"
  by pat_completeness auto
termination
  by (relation "measure length") (auto simp: length_dropWhile_le less_Suc_eq_le)

section \<open>Example pages\<close>


definition page_paris :: string where
  "page_paris = ''www.unitedcorporate.com Globex'' @ [CHR 0x0A] @ ''PARIS'' @ [CHR 0x0A] @
     ''STATEMENT OF OPEN INVOICE(S)''"

definition page_acme :: string where
  "page_acme = ''914.949.9618 Acme Corp'' @ [CHR 0x0A] @ ''PO Box 1'' @ [CHR 0x0A] @
     ''STATEMENT OF OPEN INVOICE(S)''"

text \<open>The page list of an identifier, empty when the identifier is no key.\<close>

definition pages_of :: "invoices \<Rightarrow> string \<Rightarrow> nat list" where
  "pages_of invoices k = (case map_of invoices k of None \<Rightarrow> [] | Some ps \<Rightarrow> ps)"

section \<open>Properties of invoice extraction\<close>

lemma map_of_add_invoice:
  "map_of (add_invoice p ivs k) k' =
     (if k' = k then Some (pages_of ivs k @ [p]) else map_of ivs k')"
proof -
  have step: "map_of (map (\<lambda>(q, ps). if q = k then (q, ps @ [p]) else (q, ps)) xs) k' =
      (if k' = k then map_option (\<lambda>ps. ps @ [p]) (map_of xs k') else map_of xs k')" for xs
    by (induction xs) auto
  show ?thesis
    by (cases "map_of ivs k")
       (auto simp add: add_invoice_def step pages_of_def map_add_def simp del: map_append
          split: option.splits)
qed

lemma pages_of_Nil: "pages_of [] k = []"
  by (simp add: pages_of_def)

lemma pages_of_add_invoice:
  "pages_of (add_invoice p ivs k) k' =
     (if k' = k then pages_of ivs k @ [p] else pages_of ivs k')"
  by (simp add: pages_of_def map_of_add_invoice)

lemma keys_add_invoice: "fst ` set (add_invoice p ivs k) = insert k (fst ` set ivs)"
proof -
  have "fst ` set (add_invoice p ivs k) = dom (map_of (add_invoice p ivs k))"
    by (simp add: dom_map_of_conv_image_fst)
  also have "\<dots> = insert k (dom (map_of ivs))"
    by (auto simp: map_of_add_invoice dom_def)
  finally show ?thesis by (simp add: dom_map_of_conv_image_fst)
qed

lemma pages_of_foldl_add:
  "pages_of (foldl (add_invoice p) ivs ms) k = pages_of ivs k @ replicate (count_list ms k) p"
  by (induction ms arbitrary: ivs) (auto simp: pages_of_add_invoice replicate_app_Cons_same)

lemma keys_foldl_add:
  "fst ` set (foldl (add_invoice p) ivs ms) = fst ` set ivs \<union> set ms"
  by (induction ms arbitrary: ivs) (auto simp: keys_add_invoice)

lemma pages_of_foldl_scan:
  "pages_of (foldl scan_invoice_page ivs (enumerate n doc)) k =
     pages_of ivs k @
     concat (map (\<lambda>(p, t). replicate (count_list (re_findall_invoice t) k) p) (enumerate n doc))"
  by (induction doc arbitrary: ivs n) (simp_all add: scan_invoice_page_def pages_of_foldl_add)

lemma keys_foldl_scan:
  "fst ` set (foldl scan_invoice_page ivs (enumerate n doc)) =
     fst ` set ivs \<union> (\<Union>t\<in>set doc. set (re_findall_invoice t))"
  by (induction doc arbitrary: ivs n) (auto simp: scan_invoice_page_def keys_foldl_add)

lemma extract_invoices_backends_agree: "scan_invoices_pypdf2 doc = extract_invoices_pymupdf doc"
proof -
  have "foldl (\<lambda>ivs page_num. scan_invoice_page ivs (page_num, doc ! page_num)) [] [0..<length doc]
      = foldl scan_invoice_page [] (map (\<lambda>i. (i, doc ! i)) [0..<length doc])"
    by (simp add: foldl_map)
  also have "map (\<lambda>i. (i, doc ! i)) [0..<length doc] = enumerate 0 doc"
    by (rule nth_equalityI) (simp_all add: nth_enumerate_eq)
  finally show ?thesis
    by (simp add: extract_invoices_pymupdf_def scan_invoices_pypdf2_def)
qed

text \<open>
  C1 (as the code has it). Every match appends the current page index, with no test of
  the list's last entry: the page list of an identifier holds page \<open>p\<close> once for each match
  of the identifier in the text of page \<open>p\<close>, in scan order. An identifier is a key
  exactly when it matches on some page. This is the result of the PyMuPDF backend, and
  the loop of the PyPDF2 backend computes the same dictionary; the PyPDF2 function itself
  raises \<open>NameError\<close> before its loop.
\<close>

theorem extract_invoices_appends_every_match:
  "pages_of (extract_invoices_pymupdf doc) k =
     concat (map (\<lambda>(p, t). replicate (count_list (re_findall_invoice t) k) p) (enumerate 0 doc))
   \<and> fst ` set (extract_invoices_pymupdf doc) = (\<Union>t\<in>set doc. set (re_findall_invoice t))
   \<and> scan_invoices_pypdf2 doc = extract_invoices_pymupdf doc
   \<and> extract_invoices_pypdf2 doc = Inl NameError"
proof -
  have "pages_of (scan_invoices_pypdf2 doc) k =
      concat (map (\<lambda>(p, t). replicate (count_list (re_findall_invoice t) k) p) (enumerate 0 doc))"
    by (simp add: scan_invoices_pypdf2_def pages_of_foldl_scan pages_of_Nil)
  moreover have "fst ` set (scan_invoices_pypdf2 doc) = (\<Union>t\<in>set doc. set (re_findall_invoice t))"
    by (simp add: scan_invoices_pypdf2_def keys_foldl_scan)
  moreover have "extract_invoices_pypdf2 doc = Inl NameError"
    by (simp add: extract_invoices_pypdf2_def PyPDF2_PdfReader_def)
  ultimately show ?thesis
    by (simp add: extract_invoices_backends_agree)
qed

text \<open>
  C1 (as the spec states it) fails: an identifier that matches twice in the text of page 0
  gets page 0 twice in a row.
\<close>

theorem extract_invoices_repeats_page:
  "re_findall_invoice ''P1234567 and P1234567'' = [''P1234567'', ''P1234567'']
   \<and> extract_invoices_pymupdf [''P1234567 and P1234567''] = [(''P1234567'', [0, 0])]
   \<and> scan_invoices_pypdf2 [''P1234567 and P1234567''] = [(''P1234567'', [0, 0])]"
  by code_simp

section \<open>Properties of category assembly\<close>

lemma write_category_backends_agree: "write_category_pymupdf n = write_category_pypdf2 n"
proof
  fix e
  have h: "concat (map (\<lambda>p. if 0 \<le> p - 1 \<and> p - 1 < int n then [p - 1] else []) xs) =
      map (\<lambda>p. p - 1) (filter (\<lambda>p. 0 \<le> p - 1 \<and> p - 1 < int n) xs)" for xs :: "int list"
    by (induction xs) auto
  show "write_category_pymupdf n e = write_category_pypdf2 n e"
    by (simp only: write_category_pymupdf_def write_category_pypdf2_def h)
qed

lemma create_statement_pdfs_backends_agree:
  "write_categories_pypdf2 n cats = create_statement_pdfs_pymupdf n cats"
  by (simp add: create_statement_pdfs_pymupdf_def write_categories_pypdf2_def
      write_category_backends_agree)

lemma selected_pages_sorted:
  "sorted_wrt (<) (map (\<lambda>p. p - 1) (filter P (sort (remdups (pages :: int list)))))"
proof -
  have "sorted_wrt (<) (sort (remdups pages))"
    by (simp add: strict_sorted_iff)
  then have "sorted_wrt (<) (filter P (sort (remdups pages)))"
    by (rule sorted_wrt_filter)
  then show ?thesis
    by (simp add: sorted_wrt_map)
qed

lemma filter_name_write_category:
  "filter (\<lambda>a. fst a = name @ ''.pdf'') (write_category_pypdf2 n e) =
     (if fst e = name then write_category_pypdf2 n e else [])"
  by (simp add: write_category_pypdf2_def Let_def)

lemma filter_name_create:
  "name \<notin> fst ` set cats \<Longrightarrow>
   filter (\<lambda>a. fst a = name @ ''.pdf'') (write_categories_pypdf2 n cats) = []"
  by (induction cats) (auto simp: write_categories_pypdf2_def filter_name_write_category)

lemma artifacts_of_category:
  "distinct (map fst cats) \<Longrightarrow> (name, pages) \<in> set cats \<Longrightarrow>
   filter (\<lambda>a. fst a = name @ ''.pdf'') (write_categories_pypdf2 n cats) =
     write_category_pypdf2 n (name, pages)"
proof (induction cats)
  case Nil
  then show ?case by simp
next
  case (Cons e cats)
  show ?case
  proof (cases "e = (name, pages)")
    case True
    with Cons.prems have "name \<notin> fst ` set cats" by auto
    then have "filter (\<lambda>a. fst a = name @ ''.pdf'') (write_categories_pypdf2 n cats) = []"
      by (rule filter_name_create)
    with True show ?thesis
      by (simp add: write_categories_pypdf2_def filter_name_write_category)
  next
    case False
    with Cons.prems have in_rest: "(name, pages) \<in> set cats" and "distinct (map fst cats)"
      by auto
    then have IH: "filter (\<lambda>a. fst a = name @ ''.pdf'') (write_categories_pypdf2 n cats) =
        write_category_pypdf2 n (name, pages)"
      using Cons.IH by blast
    from in_rest have "name \<in> fst ` set cats" by force
    with Cons.prems have "fst e \<noteq> name" by auto
    with IH show ?thesis
      by (simp add: write_categories_pypdf2_def filter_name_write_category)
  qed
qed

text \<open>
  C7. For a dictionary of categories (distinct keys) and a source document of \<open>n\<close> pages,
  the files written for a category are at most one; none when its page list is empty;
  and the pages of the file are in strictly ascending order (so none is repeated) and
  are exactly the listed pages that exist in the document (page number \<open>p\<close> stands for the
  source index \<open>p - 1\<close>), the others being dropped. This is the result of the PyMuPDF
  backend, and the loop of the PyPDF2 backend writes the same files; the PyPDF2 function
  itself raises \<open>NameError\<close> before its loop.
\<close>

theorem create_statement_pdfs_artifacts:
  assumes "distinct (map fst cats)" and "(name, pages) \<in> set cats"
    and "arts = filter (\<lambda>a. fst a = name @ ''.pdf'') (create_statement_pdfs_pymupdf n cats)"
  shows "length arts \<le> 1
    \<and> (pages = [] \<longrightarrow> arts = [])
    \<and> (\<forall>a \<in> set arts. sorted_wrt (<) (snd a) \<and> distinct (snd a)
          \<and> (\<forall>i \<in> set (snd a). 0 \<le> i \<and> i < int n)
          \<and> set (snd a) = {p - 1 | p. p \<in> set pages \<and> 1 \<le> p \<and> p \<le> int n})
    \<and> write_categories_pypdf2 n cats = create_statement_pdfs_pymupdf n cats
    \<and> create_statement_pdfs_pypdf2 n cats = Inl NameError"
proof -
  have arts: "arts = write_category_pypdf2 n (name, pages)"
    using assms
    by (simp add: artifacts_of_category create_statement_pdfs_backends_agree [symmetric])
  have raises: "create_statement_pdfs_pypdf2 n cats = Inl NameError"
    by (simp add: create_statement_pdfs_pypdf2_def PyPDF2_PdfReader_def)
  have len: "length arts \<le> 1" and empty: "pages = [] \<longrightarrow> arts = []"
    by (simp_all add: arts write_category_pypdf2_def Let_def)
  have each: "sorted_wrt (<) (snd a) \<and> distinct (snd a)
      \<and> (\<forall>i \<in> set (snd a). 0 \<le> i \<and> i < int n)
      \<and> set (snd a) = {p - 1 | p. p \<in> set pages \<and> 1 \<le> p \<and> p \<le> int n}"
    if "a \<in> set arts" for a
  proof -
    from that have a: "snd a = map (\<lambda>p. p - 1)
        (filter (\<lambda>p. 0 \<le> p - 1 \<and> p - 1 < int n) (sort (remdups pages)))"
      by (auto simp: arts write_category_pypdf2_def Let_def split: if_splits)
    have s: "sorted_wrt (<) (snd a)"
      unfolding a by (rule selected_pages_sorted)
    then have d: "distinct (snd a)"
      using strict_sorted_iff by blast
    have r: "\<forall>i \<in> set (snd a). 0 \<le> i \<and> i < int n"
      unfolding a by auto
    have e: "set (snd a) = {p - 1 | p. p \<in> set pages \<and> 1 \<le> p \<and> p \<le> int n}"
      unfolding a by auto
    from s d r e show ?thesis by blast
  qed
  from len empty each raises show ?thesis
    by (simp add: create_statement_pdfs_backends_agree)
qed

theorem create_statement_pdfs_artifacts_witness:
  "create_statement_pdfs_pymupdf 3 (items \<lparr>dnm = [2, 5, 2, 0], national_single = [],
       national_multi = [3, 1], foreign = [4]\<rparr>) =
     [(''dnm.pdf'', [1]), (''national_multi.pdf'', [0, 2])]
   \<and> length (filter (\<lambda>a. fst a = ''dnm'' @ ''.pdf'')
        (create_statement_pdfs_pymupdf 3 (items \<lparr>dnm = [2, 5, 2, 0], national_single = [],
           national_multi = [3, 1], foreign = [4]\<rparr>))) \<le> 1"
  using create_statement_pdfs_artifacts [of
      "items \<lparr>dnm = [2, 5, 2, 0], national_single = [], national_multi = [3, 1], foreign = [4]\<rparr>"
      "''dnm''" "[2, 5, 2, 0]" _ 3, OF _ _ refl]
  by (simp add: items_def create_statement_pdfs_pymupdf_def write_category_pymupdf_def)

section \<open>Properties of resolving\<close>

text \<open>
  C8. A decision that is not in the pending queue makes the handler report an error (for a
  stored session the \<open>ValueError\<close> of \<open>list.remove\<close>, for a missing session
  \<open>Session expired\<close>), never a reply. A decision that is in the queue loses exactly one
  entry, the first one equal to the whole payload; the other entries stay, in order.
\<close>

theorem statement_decision_resolve:
  "(statement \<notin> set (queue_of session) \<longrightarrow>
      fst (statement_decision lib pages_at action statement session) =
        Inl (if session = None then SessionExpired else NotInList))
   \<and> (statement \<in> set (queue_of session) \<longrightarrow>
        fst (statement_decision lib pages_at action statement session) \<noteq> Inl NotInList
      \<and> queue_of (snd (statement_decision lib pages_at action statement session)) =
          remove1 statement (queue_of session)
      \<and> mset (queue_of (snd (statement_decision lib pages_at action statement session))) =
          mset (queue_of session) - {#statement#}
      \<and> length (queue_of (snd (statement_decision lib pages_at action statement session))) =
          length (queue_of session) - 1)"
proof (cases session)
  case None
  then show ?thesis
    by (simp add: statement_decision_def queue_of_def)
next
  case (Some td)
  show ?thesis
  proof (cases "statement \<in> set (pending td)")
    case False
    with Some show ?thesis
      by (simp add: statement_decision_def queue_of_def)
  next
    case True
    let ?r = "statement_decision lib pages_at action statement (Some td)"
    have r1: "fst ?r \<noteq> Inl NotInList"
      using True
      by (simp add: statement_decision_def Let_def create_statement_pdfs_def
          create_statement_pdfs_pypdf2_def PyPDF2_PdfReader_def
          split: sum.splits pdf_lib.splits)
    have r2: "queue_of (snd ?r) = remove1 statement (pending td)"
      using True
      by (simp add: statement_decision_def Let_def queue_of_def split: sum.splits)
    have r3: "mset (remove1 statement (pending td)) = mset (pending td) - {#statement#}"
      by simp
    have r4: "length (remove1 statement (pending td)) = length (pending td) - 1"
      using True by (simp add: length_remove1)
    from Some True r1 r2 r3 r4 show ?thesis
      by (simp add: queue_of_def)
  qed
qed

theorem statement_decision_resolve_witness:
  "fst (statement_decision PyMuPDF (\<lambda>_. 9) ''foreign''
      \<lparr>page_num = 7, company_name = ''Globex'', close_match = ''Globex Inc'', total_pages = 2,
        lines = [''Globex'']\<rparr>
      (Some \<lparr>pdf_path = ''in.pdf'',
        session_categories = \<lparr>dnm = [1], national_single = [], national_multi = [],
          foreign = []\<rparr>,
        pending = [\<lparr>page_num = 4, company_name = ''Acme'', close_match = ''Acme Inc'',
          total_pages = 1, lines = [''Acme'']\<rparr>]\<rparr>)) = Inl NotInList
   \<and> queue_of (snd (statement_decision PyMuPDF (\<lambda>_. 9) ''national''
      \<lparr>page_num = 4, company_name = ''Acme'', close_match = ''Acme Inc'', total_pages = 1,
        lines = [''Acme'']\<rparr>
      (Some \<lparr>pdf_path = ''in.pdf'',
        session_categories = \<lparr>dnm = [1], national_single = [], national_multi = [],
          foreign = []\<rparr>,
        pending = [\<lparr>page_num = 4, company_name = ''Acme'', close_match = ''Acme Inc'',
          total_pages = 1, lines = [''Acme'']\<rparr>,
          \<lparr>page_num = 4, company_name = ''Acme'', close_match = ''Acme Inc'',
          total_pages = 1, lines = [''Acme'']\<rparr>]\<rparr>))) =
     [\<lparr>page_num = 4, company_name = ''Acme'', close_match = ''Acme Inc'',
          total_pages = 1, lines = [''Acme'']\<rparr>]"
  using statement_decision_resolve [of
      "\<lparr>page_num = 7, company_name = ''Globex'', close_match = ''Globex Inc'', total_pages = 2,
        lines = [''Globex'']\<rparr>"
      "Some \<lparr>pdf_path = ''in.pdf'',
        session_categories = \<lparr>dnm = [1], national_single = [], national_multi = [],
          foreign = []\<rparr>,
        pending = [\<lparr>page_num = 4, company_name = ''Acme'', close_match = ''Acme Inc'',
          total_pages = 1, lines = [''Acme'']\<rparr>]\<rparr>" PyMuPDF "\<lambda>_. 9" "''foreign''"]
    statement_decision_resolve [of
      "\<lparr>page_num = 4, company_name = ''Acme'', close_match = ''Acme Inc'', total_pages = 1,
        lines = [''Acme'']\<rparr>"
      "Some \<lparr>pdf_path = ''in.pdf'',
        session_categories = \<lparr>dnm = [1], national_single = [], national_multi = [],
          foreign = []\<rparr>,
        pending = [\<lparr>page_num = 4, company_name = ''Acme'', close_match = ''Acme Inc'',
          total_pages = 1, lines = [''Acme'']\<rparr>,
          \<lparr>page_num = 4, company_name = ''Acme'', close_match = ''Acme Inc'',
          total_pages = 1, lines = [''Acme'']\<rparr>]\<rparr>" PyMuPDF "\<lambda>_. 9" "''national''"]
  by (simp add: queue_of_def)

text \<open>
  C10. The category lists are extended before the queue is searched: for a decision that
  is not in the queue, the handler reports the error with the decision's pages already
  appended to the list the action names. With one of the three actions and a decision of
  at least one page, the category assignment in memory differs from the one in the session
  before the call.
\<close>

theorem statement_decision_not_atomic:
  assumes "statement \<notin> set (pending td)"
  shows "statement_decision lib pages_at action statement (Some td) =
      (Inl NotInList,
       Some (td\<lparr>session_categories := extend_category action statement (session_categories td)\<rparr>))
    \<and> (action \<in> {''dnm'', ''foreign'', ''national''} \<and> 1 \<le> total_pages statement \<longrightarrow>
        extend_category action statement (session_categories td) \<noteq> session_categories td)"
proof -
  have ne: "py_range (page_num statement) (page_num statement + total_pages statement) \<noteq> []"
    if "1 \<le> total_pages statement"
    using that by (simp add: py_range_def)
  have neq: "xs @ ys \<noteq> xs" if "ys \<noteq> []" for xs ys :: "int list"
    using that by simp
  have changed: "extend_category action statement c \<noteq> c"
    if "action \<in> {''dnm'', ''foreign'', ''national''}" and "1 \<le> total_pages statement" for c
  proof
    assume eq: "extend_category action statement c = c"
    let ?pages = "py_range (page_num statement) (page_num statement + total_pages statement)"
    from that(1) consider "action = ''dnm''" | "action = ''foreign''" | "action = ''national''"
      by auto
    then show False
    proof cases
      case 1
      with eq have "dnm (c\<lparr>dnm := dnm c @ ?pages\<rparr>) = dnm c"
        by (simp add: extend_category_def)
      with ne [OF that(2)] show False by simp
    next
      case 2
      with eq have "foreign (c\<lparr>foreign := foreign c @ ?pages\<rparr>) = foreign c"
        by (simp add: extend_category_def)
      with ne [OF that(2)] show False by simp
    next
      case 3
      show False
      proof (cases "total_pages statement = 1")
        case True
        with 3 eq have "national_single (c\<lparr>national_single := national_single c @ ?pages\<rparr>) =
            national_single c"
          by (simp add: extend_category_def)
        with ne [OF that(2)] show False by simp
      next
        case False
        with 3 eq have "national_multi (c\<lparr>national_multi := national_multi c @ ?pages\<rparr>) =
            national_multi c"
          by (simp add: extend_category_def)
        with ne [OF that(2)] show False by simp
      qed
    qed
  qed
  from assms changed show ?thesis
    by (simp add: statement_decision_def)
qed

theorem statement_decision_not_atomic_witness:
  "statement_decision PyMuPDF (\<lambda>_. 9) ''foreign''
      \<lparr>page_num = 7, company_name = ''Globex'', close_match = ''Globex Inc'', total_pages = 2,
        lines = [''Globex'']\<rparr>
      (Some \<lparr>pdf_path = ''in.pdf'',
        session_categories = \<lparr>dnm = [1], national_single = [], national_multi = [],
          foreign = []\<rparr>,
        pending = [\<lparr>page_num = 4, company_name = ''Acme'', close_match = ''Acme Inc'',
          total_pages = 1, lines = [''Acme'']\<rparr>]\<rparr>) =
     (Inl NotInList,
      Some \<lparr>pdf_path = ''in.pdf'',
        session_categories = \<lparr>dnm = [1], national_single = [], national_multi = [],
          foreign = [7, 8]\<rparr>,
        pending = [\<lparr>page_num = 4, company_name = ''Acme'', close_match = ''Acme Inc'',
          total_pages = 1, lines = [''Acme'']\<rparr>]\<rparr>)"
  using statement_decision_not_atomic [of
      "\<lparr>page_num = 7, company_name = ''Globex'', close_match = ''Globex Inc'', total_pages = 2,
        lines = [''Globex'']\<rparr>"
      "\<lparr>pdf_path = ''in.pdf'',
        session_categories = \<lparr>dnm = [1], national_single = [], national_multi = [],
          foreign = []\<rparr>,
        pending = [\<lparr>page_num = 4, company_name = ''Acme'', close_match = ''Acme Inc'',
          total_pages = 1, lines = [''Acme'']\<rparr>]\<rparr>" PyMuPDF "\<lambda>_. 9" "''foreign''"]
  by (simp add: extend_category_def py_range_def upto.simps)

section \<open>Properties of the page count\<close>

lemma digit_value:
  assumes "is_digit c"
  shows "0 \<le> int (of_char c) - 48" and "(int (of_char c) - 48 = 0) = (c = CHR ''0'')"
proof -
  show "0 \<le> int (of_char c) - 48"
    using assms by (simp add: is_digit_def Let_def)
  have zero: "of_char (CHR ''0'') = (48 :: nat)" by simp
  have "c = CHR ''0''" if "of_char c = (48 :: nat)"
  proof -
    have "(of_char c :: nat) = of_char (CHR ''0'')"
      unfolding zero by (rule that)
    then show ?thesis by (simp only: of_char_eq_iff)
  qed
  moreover note zero
  ultimately show "(int (of_char c) - 48 = 0) = (c = CHR ''0'')"
    by auto
qed

lemma foldl_digits:
  "0 \<le> n \<Longrightarrow> list_all is_digit s \<Longrightarrow>
   0 \<le> foldl (\<lambda>n c. 10 * n + (int (of_char c) - 48)) n s
   \<and> (foldl (\<lambda>n c. 10 * n + (int (of_char c) - 48)) n s = 0
        \<longleftrightarrow> n = 0 \<and> set s \<subseteq> {CHR ''0''})"
proof (induction s arbitrary: n)
  case Nil
  then show ?case by simp
next
  case (Cons c s)
  then have c: "is_digit c" and s: "list_all is_digit s" by simp_all
  let ?m = "10 * n + (int (of_char c) - 48)"
  from digit_value(1) [OF c] Cons.prems(1) have m: "0 \<le> ?m" by simp
  from digit_value [OF c] Cons.prems(1) have m0: "?m = 0 \<longleftrightarrow> n = 0 \<and> c = CHR ''0''"
    by auto
  from Cons.IH [OF m s] m0 show ?case by auto
qed

lemma digits_value_digits:
  "list_all is_digit s \<Longrightarrow>
   0 \<le> digits_value s \<and> (digits_value s = 0 \<longleftrightarrow> set s \<subseteq> {CHR ''0''})"
  using foldl_digits [of 0 s] by (simp add: digits_value_def)

lemma list_all_takeWhile: "list_all P (takeWhile P xs)"
  by (induction xs) auto

lemma match_page_Some:
  assumes "match_page s = Some (g1, g2)"
  shows "page_pattern s g1 g2"
proof -
  define r0 where "r0 = drop 4 s"
  define s1 where "s1 = dropWhile is_space r0"
  define r1 where "r1 = dropWhile is_digit s1"
  define s2 where "s2 = dropWhile is_space r1"
  define r2 where "r2 = drop 2 s2"
  define s3 where "s3 = dropWhile is_space r2"
  define rest where "rest = dropWhile is_digit s3"
  have unf: "match_page s =
     (if lower (take 4 s) = ''page'' then
        (if takeWhile is_digit s1 \<noteq> [] \<and> lower (take 2 s2) = ''of'' then
           (if takeWhile is_digit s3 \<noteq> [] then Some (takeWhile is_digit s1, takeWhile is_digit s3)
            else None)
         else None)
      else None)"
    unfolding match_page_def Let_def r0_def s1_def r1_def s2_def r2_def s3_def ..
  from assms have p: "lower (take 4 s) = ''page''"
    unfolding unf by (simp split: if_splits)
  from assms p have g1f: "takeWhile is_digit s1 \<noteq> [] \<and> lower (take 2 s2) = ''of''"
    unfolding unf by (simp split: if_splits)
  from assms p g1f have g2n: "takeWhile is_digit s3 \<noteq> []"
    unfolding unf by (simp split: if_splits)
  from assms p g1f g2n have g: "g1 = takeWhile is_digit s1" "g2 = takeWhile is_digit s3"
    unfolding unf by simp_all
  have "s = take 4 s @ r0" by (simp add: r0_def)
  also have "r0 = takeWhile is_space r0 @ s1" by (simp add: s1_def)
  also have "s1 = g1 @ r1" by (simp add: g r1_def)
  also have "r1 = takeWhile is_space r1 @ s2" by (simp add: s2_def)
  also have "s2 = take 2 s2 @ r2" by (simp add: r2_def)
  also have "r2 = takeWhile is_space r2 @ s3" by (simp add: s3_def)
  also have "s3 = g2 @ rest" by (simp add: g rest_def)
  finally have dec: "s = [] @ take 4 s @ takeWhile is_space r0 @ g1 @ takeWhile is_space r1 @
      take 2 s2 @ takeWhile is_space r2 @ g2 @ rest" by simp
  have rest: "case rest of [] \<Rightarrow> True | c # _ \<Rightarrow> \<not> is_digit c"
    by (auto simp: rest_def dropWhile_eq_Cons_conv split: list.splits)
  have digs: "list_all is_digit g1" "list_all is_digit g2" "g1 \<noteq> []" "g2 \<noteq> []"
    using g1f g2n by (simp_all add: g list_all_takeWhile)
  have sp: "list_all is_space (takeWhile is_space r0)" "list_all is_space (takeWhile is_space r1)"
    "list_all is_space (takeWhile is_space r2)"
    by (rule list_all_takeWhile)+
  show ?thesis
    unfolding page_pattern_def
    using dec p g1f digs sp rest by blast
qed

lemma page_pattern_append: "page_pattern s g1 g2 \<Longrightarrow> page_pattern (pre @ s) g1 g2"
proof -
  assume "page_pattern s g1 g2"
  then obtain pre' p w1 w2 f w3 rest where
    d: "s = pre' @ p @ w1 @ g1 @ w2 @ f @ w3 @ g2 @ rest"
    and r: "lower p = ''page''" "lower f = ''of''"
      "list_all is_space w1" "list_all is_space w2" "list_all is_space w3"
      "g1 \<noteq> []" "list_all is_digit g1" "g2 \<noteq> []" "list_all is_digit g2"
      "case rest of [] \<Rightarrow> True | c # _ \<Rightarrow> \<not> is_digit c"
    unfolding page_pattern_def by blast
  from d have "pre @ s = (pre @ pre') @ p @ w1 @ g1 @ w2 @ f @ w3 @ g2 @ rest" by simp
  with r show ?thesis
    unfolding page_pattern_def by blast
qed

lemma re_search_page_Some:
  "re_search_page t = Some (g1, g2) \<Longrightarrow> page_pattern t g1 g2"
proof (induction t)
  case Nil
  then show ?case by simp
next
  case (Cons c cs)
  show ?case
  proof (cases "match_page (c # cs)")
    case None
    with Cons have "page_pattern cs g1 g2" by simp
    from page_pattern_append [OF this, of "[c]"] show ?thesis by simp
  next
    case (Some h)
    with Cons.prems have "match_page (c # cs) = Some (g1, g2)" by simp
    then show ?thesis by (rule match_page_Some)
  qed
qed

lemma page_pattern_digits: "page_pattern t g1 g2 \<Longrightarrow> g2 \<noteq> [] \<and> list_all is_digit g2"
  unfolding page_pattern_def by blast

text \<open>
  The page count of a page. It is 1 when the pattern matches nowhere in the text. When
  the pattern matches, the text has the form \<open>page_pattern\<close> describes; the page count is
  the number the second run of digits of the leftmost match denotes, which is never
  negative and is 0 exactly when that run consists of zeros; and a run of more than 4300
  digits raises \<open>ValueError\<close>.
\<close>

lemma total_pages_of_value:
  "(re_search_page text = None \<longrightarrow> total_pages_of text = Inr 1)
   \<and> (\<forall>g1 g2. re_search_page text = Some (g1, g2) \<longrightarrow>
        page_pattern text g1 g2
        \<and> total_pages_of text =
            (if 4300 < length g2 then Inl ValueError else Inr (digits_value g2))
        \<and> 0 \<le> digits_value g2
        \<and> (digits_value g2 = 0 \<longleftrightarrow> set g2 = {CHR ''0''}))"
proof -
  have some: "page_pattern text g1 g2
        \<and> total_pages_of text =
            (if 4300 < length g2 then Inl ValueError else Inr (digits_value g2))
        \<and> 0 \<le> digits_value g2
        \<and> (digits_value g2 = 0 \<longleftrightarrow> set g2 = {CHR ''0''})"
    if r: "re_search_page text = Some (g1, g2)" for g1 g2
  proof -
    have pp: "page_pattern text g1 g2"
      using r by (rule re_search_page_Some)
    then have g2: "g2 \<noteq> []" "list_all is_digit g2"
      using page_pattern_digits by blast+
    have t: "total_pages_of text =
        (if 4300 < length g2 then Inl ValueError else Inr (digits_value g2))"
      by (simp add: total_pages_of_def r int_of_digits_def)
    from g2(1) have sub: "set g2 \<subseteq> {CHR ''0''} \<longleftrightarrow> set g2 = {CHR ''0''}"
      by (cases g2) auto
    from digits_value_digits [OF g2(2)] have "0 \<le> digits_value g2"
      and "digits_value g2 = 0 \<longleftrightarrow> set g2 = {CHR ''0''}"
      unfolding sub by blast+
    with pp t show ?thesis by simp
  qed
  have none: "total_pages_of text = Inr 1" if "re_search_page text = None"
    using that by (simp add: total_pages_of_def)
  from some none show ?thesis by blast
qed

lemma total_pages_of_nonneg: "total_pages_of text = Inr tot \<Longrightarrow> 0 \<le> tot"
proof (cases "re_search_page text")
  case None
  assume "total_pages_of text = Inr tot"
  with None show ?thesis by (simp add: total_pages_of_def)
next
  case (Some g)
  assume t: "total_pages_of text = Inr tot"
  from Some have "re_search_page text = Some (fst g, snd g)" by simp
  with total_pages_of_value [of "text"]
  have "total_pages_of text =
      (if 4300 < length (snd g) then Inl ValueError else Inr (digits_value (snd g)))"
    and "0 \<le> digits_value (snd g)"
    by blast+
  with t show ?thesis by (simp split: if_splits)
qed

lemma is_digit_7: "is_digit (CHR ''7'')"
  by code_simp

lemma match_page_long:
  "match_page (''Page 1 of '' @ replicate (Suc n) (CHR ''7'')) =
     Some (''1'', replicate (Suc n) (CHR ''7''))"
proof -
  have l4: "lower ''Page'' = ''page''" and l2: "lower ''of'' = ''of''"
    by code_simp+
  have d1: "dropWhile is_space ('' 1 of '' @ replicate (Suc n) (CHR ''7'')) =
      ''1 of '' @ replicate (Suc n) (CHR ''7'')"
    and t1: "takeWhile is_digit (''1 of '' @ replicate (Suc n) (CHR ''7'')) = ''1''"
    and d2: "dropWhile is_space (dropWhile is_digit (''1 of '' @ replicate (Suc n) (CHR ''7''))) =
      ''of '' @ replicate (Suc n) (CHR ''7'')"
    and d3: "dropWhile is_space ('' '' @ replicate (Suc n) (CHR ''7'')) =
      replicate (Suc n) (CHR ''7'')"
    by (simp_all add: is_space_def is_digit_def Let_def)
  have t2: "takeWhile is_digit (replicate (Suc n) (CHR ''7'')) = replicate (Suc n) (CHR ''7'')"
    using is_digit_7 by (simp add: takeWhile_replicate del: replicate_Suc)
  show ?thesis
    unfolding match_page_def Let_def
    using l4 l2 d1 t1 d2 d3 t2 by (simp del: replicate_Suc)
qed

lemma total_pages_of_long:
  "4300 \<le> n \<Longrightarrow>
   total_pages_of (''Page 1 of '' @ replicate (Suc n) (CHR ''7'')) = Inl ValueError"
proof -
  assume n: "4300 \<le> n"
  have "re_search_page (''Page 1 of '' @ replicate (Suc n) (CHR ''7'')) =
      Some (''1'', replicate (Suc n) (CHR ''7''))"
    using match_page_long [of n] by (simp del: replicate_Suc)
  with n show ?thesis
    by (simp add: total_pages_of_def int_of_digits_def del: replicate_Suc)
qed

text \<open>
  C3. The claim is a page count of at least 1, computed without an exception. The code
  converts the second number of the pattern as it stands: a declared total of 0 gives the
  page count 0 (the value on which the PyMuPDF scan below does not end), and a number
  written with 4301 digits makes \<open>int\<close> raise \<open>ValueError\<close>.
\<close>

theorem total_pages_of_zero:
  "re_search_page ''Page 1 of 0'' = Some (''1'', ''0'')
   \<and> total_pages_of ''Page 1 of 0'' = Inr 0
   \<and> total_pages_of (''Page 1 of '' @ replicate 4301 (CHR ''7'')) = Inl ValueError"
proof -
  have "re_search_page ''Page 1 of 0'' = Some (''1'', ''0'')"
    by code_simp
  moreover have "total_pages_of ''Page 1 of 0'' = Inr 0"
    by code_simp
  moreover have "total_pages_of (''Page 1 of '' @ replicate (Suc 4300) (CHR ''7'')) = Inl ValueError"
    by (rule total_pages_of_long) simp
  ultimately show ?thesis
    by (simp only: eval_nat_numeral(3) [symmetric] numeral_plus_one [symmetric] flip: One_nat_def)
qed

section \<open>Termination of the PyMuPDF scan\<close>

lemma scan_pymupdf_stuck:
  assumes "scan_pymupdf company_names doc page_no res = Some r"
  shows "\<not> (page_no < length doc \<and> total_pages_of (doc ! page_no) = Inr 0
            \<and> advance (doc ! page_no) 0 = 0)"
proof (rule scan_pymupdf.raw_induct
    [where P = "\<lambda>_ d n _ _. \<not> (n < length d \<and> total_pages_of (d ! n) = Inr 0
                  \<and> advance (d ! n) 0 = 0)", OF _ assms])
  fix scan :: "string list \<Rightarrow> string list \<Rightarrow> nat \<Rightarrow> seg_result \<Rightarrow> (error + seg_result) option"
  fix names d n res' y
  assume IH: "\<And>names d n res' y. scan names d n res' = Some y \<Longrightarrow>
      \<not> (n < length d \<and> total_pages_of (d ! n) = Inr 0 \<and> advance (d ! n) 0 = 0)"
  assume body: "(if n < length d
      then (case total_pages_of (d ! n) of
              Inl e \<Rightarrow> Some (Inl e)
            | Inr tot \<Rightarrow>
                scan names d (n + advance (d ! n) tot) (page_pymupdf names n (d ! n) tot res'))
      else Some (Inr res')) = Some y"
  show "\<not> (n < length d \<and> total_pages_of (d ! n) = Inr 0 \<and> advance (d ! n) 0 = 0)"
  proof
    assume stuck: "n < length d \<and> total_pages_of (d ! n) = Inr 0 \<and> advance (d ! n) 0 = 0"
    with body have "scan names d n (page_pymupdf names n (d ! n) 0 res') = Some y"
      by simp
    from IH [OF this] stuck show False by simp
  qed
qed

text \<open>
  The scan ends, with a result or an exception, for every document none of whose pages
  declares a total of 0.
\<close>

lemma scan_pymupdf_terminates:
  assumes "\<forall>text \<in> set doc. total_pages_of text \<noteq> Inr 0"
  shows "\<exists>r. scan_pymupdf company_names doc page_no res = Some r"
proof (induction "length doc - page_no" arbitrary: page_no res rule: less_induct)
  case less
  show ?case
  proof (cases "page_no < length doc")
    case True
    show ?thesis
    proof (cases "total_pages_of (doc ! page_no)")
      case (Inl e)
      with True show ?thesis by (subst scan_pymupdf.simps) simp
    next
      case (Inr tot)
      from True assms have "total_pages_of (doc ! page_no) \<noteq> Inr 0" by simp
      with Inr total_pages_of_nonneg [OF Inr] have "0 < tot" by (cases "tot = 0") auto
      then have adv: "0 < advance (doc ! page_no) tot" by (simp add: advance_def)
      with True have "length doc - (page_no + advance (doc ! page_no) tot) < length doc - page_no"
        by arith
      from less [OF this] show ?thesis
        using True Inr by (subst scan_pymupdf.simps) simp
    qed
  next
    case False
    then show ?thesis by (subst scan_pymupdf.simps) simp
  qed
qed

text \<open>
  C9. The claim is that the scan ends for every document. It does not: on a page whose
  pattern declares a total of 0 pages the page counter is stepped by 0, and the loop
  runs on the same page forever. (By \<open>scan_pymupdf_terminates\<close> it ends for every
  document none of whose pages declares 0.)
\<close>

theorem process_statements_pymupdf_diverges:
  "total_pages_of ''Page 1 of 0'' = Inr 0
   \<and> advance ''Page 1 of 0'' 0 = 0
   \<and> process_statements_pymupdf company_names [''Page 1 of 0''] = None"
proof -
  have tot: "total_pages_of ''Page 1 of 0'' = Inr 0" by code_simp
  have adv: "advance ''Page 1 of 0'' 0 = 0" by code_simp
  have "process_statements_pymupdf company_names [''Page 1 of 0''] \<noteq> Some r" for r
    using scan_pymupdf_stuck [of company_names "[''Page 1 of 0'']" 0 no_results r] tot adv
    by (auto simp: process_statements_pymupdf_def)
  with tot adv show ?thesis
    by (cases "process_statements_pymupdf company_names [''Page 1 of 0'']") auto
qed

section \<open>Properties of the boundary extraction\<close>

lemma contains_iff: "contains t sub \<longleftrightarrow> (\<exists>pre post. t = pre @ sub @ post)"
proof (induction t)
  case Nil
  then show ?case by auto
next
  case (Cons c cs)
  show ?case
  proof
    assume "contains (c # cs) sub"
    then consider "prefix sub (c # cs)" | "contains cs sub" by auto
    then show "\<exists>pre post. c # cs = pre @ sub @ post"
    proof cases
      case 1
      then obtain post where "c # cs = sub @ post" by (auto simp: prefix_def)
      then have "c # cs = [] @ sub @ post" by simp
      then show ?thesis by blast
    next
      case 2
      with Cons obtain pre post where "cs = pre @ sub @ post" by blast
      then have "c # cs = (c # pre) @ sub @ post" by simp
      then show ?thesis by blast
    qed
  next
    assume "\<exists>pre post. c # cs = pre @ sub @ post"
    then obtain pre post where d: "c # cs = pre @ sub @ post" by blast
    show "contains (c # cs) sub"
    proof (cases pre)
      case Nil
      with d have "prefix sub (c # cs)" by (simp add: prefix_def)
      then show ?thesis by simp
    next
      case (Cons p ps)
      with d have "cs = ps @ sub @ post" by simp
      with Cons.IH have "contains cs sub" by blast
      then show ?thesis by simp
    qed
  qed
qed

lemma find_from_contains:
  "(find_from sub t i = - 1 \<longleftrightarrow> \<not> contains t sub)
   \<and> (contains t sub \<longrightarrow> int i \<le> find_from sub t i)"
proof (induction t arbitrary: i)
  case Nil
  then show ?case by simp
next
  case (Cons c cs)
  show ?case
  proof (cases "prefix sub (c # cs)")
    case True
    then show ?thesis by simp
  next
    case False
    from Cons [of "Suc i"] have "contains cs sub \<longrightarrow> int i \<le> find_from sub cs (Suc i)"
      by auto
    with Cons [of "Suc i"] False show ?thesis by simp
  qed
qed

lemma find_from_neg: "find_from sub t i = - 1 \<longleftrightarrow> \<not> contains t sub"
  using find_from_contains by blast

lemma find_from_ge: "contains t sub \<Longrightarrow> int i \<le> find_from sub t i"
  using find_from_contains by blast


text \<open>\<open>find\<close> gives the lowest index at which the string occurs.\<close>

lemma find_from_lowest:
  "find_from sub t i = int (i + k) \<Longrightarrow>
   prefix sub (drop k t) \<and> (\<forall>j<k. \<not> prefix sub (drop j t))"
proof (induction t arbitrary: i k)
  case Nil
  then show ?case by (auto split: if_splits)
next
  case (Cons c cs)
  show ?case
  proof (cases "prefix sub (c # cs)")
    case True
    with Cons.prems show ?thesis by simp
  next
    case False
    with Cons.prems have f: "find_from sub cs (Suc i) = int (i + k)" by simp
    then have "find_from sub cs (Suc i) \<noteq> - 1" by simp
    then have "contains cs sub" by (simp add: find_from_neg)
    from find_from_ge [OF this, of "Suc i"] f have "0 < k" by simp
    then obtain k' where k: "k = Suc k'" by (cases k) auto
    with f have "find_from sub cs (Suc i) = int (Suc i + k')" by simp
    from Cons.IH [OF this] have "prefix sub (drop k' cs)"
      and "\<forall>j<k'. \<not> prefix sub (drop j cs)" by blast+
    with False k show ?thesis by (auto simp: less_Suc_eq_0_disj)
  qed
qed

lemma find_str_lowest:
  "find_str t sub = int k \<Longrightarrow> prefix sub (drop k t) \<and> (\<forall>j<k. \<not> prefix sub (drop j t))"
  using find_from_lowest [of sub t 0 k] by (simp add: find_str_def)







section \<open>Properties of the heuristic tier\<close>

lemma prefix_no_sep: "c \<notin> set sub \<Longrightarrow> prefix sub (a @ c # b) \<longleftrightarrow> prefix sub a"
proof
  assume c: "c \<notin> set sub" and "prefix sub (a @ c # b)"
  then consider "prefix sub a" | us where "sub = a @ us" "prefix us (c # b)"
    by (auto simp: prefix_append)
  then show "prefix sub a"
  proof cases
    case 1
    then show ?thesis .
  next
    case 2
    with c have "us = []" by (cases us) auto
    with 2 show ?thesis by simp
  qed
next
  assume "prefix sub a"
  then show "prefix sub (a @ c # b)" by (rule prefix_prefix)
qed

lemma contains_Nil: "contains t []"
  by (cases t) simp_all

lemma contains_sep:
  "c \<notin> set sub \<Longrightarrow> sub \<noteq> [] \<Longrightarrow>
   contains (a @ c # b) sub \<longleftrightarrow> contains a sub \<or> contains b sub"
proof (induction a)
  case Nil
  then have "\<not> prefix sub (c # b)" by (cases sub) auto
  with Nil show ?case by simp
next
  case (Cons x a)
  from prefix_no_sep [OF Cons.prems(1), of "x # a" b]
  have "prefix sub (x # a @ c # b) \<longleftrightarrow> prefix sub (x # a)" by simp
  with Cons show ?case by auto
qed

lemma contains_join_space:
  "CHR '' '' \<notin> set sub \<Longrightarrow> sub \<noteq> [] \<Longrightarrow>
   contains (join_space ls) sub \<longleftrightarrow> (\<exists>l \<in> set ls. contains l sub)"
proof (induction ls rule: join_space.induct)
  case 1
  then show ?case by simp
next
  case (2 l)
  then show ?case by simp
next
  case (3 l v va)
  from contains_sep [OF "3.prems", of l "join_space (v # va)"] "3.IH" [OF "3.prems"]
  show ?case by simp
qed

lemma US_STATES_shape:
  "length US_STATES = 51 \<and> distinct US_STATES
   \<and> list_all (\<lambda>s. length s = 2 \<and> CHR '' '' \<notin> set s) US_STATES"
  by (simp add: US_STATES_def)

lemma state_in_body:
  "list_ex (contains (join_space body)) US_STATES \<longleftrightarrow>
   (\<exists>state \<in> set US_STATES. \<exists>l \<in> set body. contains l state)"
proof -
  have "contains (join_space body) state \<longleftrightarrow> (\<exists>l \<in> set body. contains l state)"
    if "state \<in> set US_STATES" for state
  proof -
    from that US_STATES_shape have "length state = 2 \<and> CHR '' '' \<notin> set state"
      by (simp add: list_all_iff)
    then have "CHR '' '' \<notin> set state" "state \<noteq> []" by auto
    then show ?thesis by (rule contains_join_space)
  qed
  then show ?thesis by (auto simp: list_ex_iff)
qed

text \<open>
  C4 (as the code has it). For a record with no exact and no close match whose page text
  does not contain \<open>email\<close> in any case, the PyMuPDF backend (for every page count
  \<open>tot\<close>) and the loop of the PyPDF2 backend classify National exactly when one of the 51
  two-letter abbreviations is a substring (\<open>state in ' '.join(lines[1:])\<close>) of some line
  after the entity-name line, and Foreign otherwise. The test is case-sensitive and needs
  no token boundary.
\<close>

theorem heuristic_national_substring:
  assumes "detect text = Some ls" and "hd ls \<notin> set company_names"
    and "get_close_matches (hd ls) company_names (4 / 5) = []"
    and "\<not> contains (lower text) ''email''"
  shows "page_pypdf2 company_names res (page_no, text) =
      (if \<exists>state \<in> set US_STATES. \<exists>l \<in> set (drop 1 ls). contains l state
       then res\<lparr>categories := (categories res)\<lparr>national_single :=
              national_single (categories res) @ [int page_no + 1]\<rparr>\<rparr>
       else res\<lparr>categories := (categories res)\<lparr>foreign :=
              foreign (categories res) @ [int page_no + 1]\<rparr>\<rparr>)
    \<and> page_pymupdf company_names page_no text tot res =
      (let pages = py_range (int page_no + 1) (int page_no + 1 + tot) in
       if \<exists>state \<in> set US_STATES. \<exists>l \<in> set (drop 1 ls). contains l state
       then (if tot = 1
             then res\<lparr>categories := (categories res)\<lparr>national_single :=
                    national_single (categories res) @ pages\<rparr>\<rparr>
             else res\<lparr>categories := (categories res)\<lparr>national_multi :=
                    national_multi (categories res) @ pages\<rparr>\<rparr>)
       else res\<lparr>categories := (categories res)\<lparr>foreign :=
              foreign (categories res) @ pages\<rparr>\<rparr>)
    \<and> length US_STATES = 51 \<and> distinct US_STATES \<and> list_all (\<lambda>s. length s = 2) US_STATES"
proof -
  from assms have py: "page_pypdf2 company_names res (page_no, text) =
      (if \<exists>state \<in> set US_STATES. \<exists>l \<in> set (drop 1 ls). contains l state
       then res\<lparr>categories := (categories res)\<lparr>national_single :=
              national_single (categories res) @ [int page_no + 1]\<rparr>\<rparr>
       else res\<lparr>categories := (categories res)\<lparr>foreign :=
              foreign (categories res) @ [int page_no + 1]\<rparr>\<rparr>)"
    unfolding state_in_body [symmetric]
    by (simp add: page_pypdf2_def classify_pypdf2_def heuristic_pypdf2_def Let_def)
  from assms have mu: "page_pymupdf company_names page_no text tot res =
      (let pages = py_range (int page_no + 1) (int page_no + 1 + tot) in
       if \<exists>state \<in> set US_STATES. \<exists>l \<in> set (drop 1 ls). contains l state
       then (if tot = 1
             then res\<lparr>categories := (categories res)\<lparr>national_single :=
                    national_single (categories res) @ pages\<rparr>\<rparr>
             else res\<lparr>categories := (categories res)\<lparr>national_multi :=
                    national_multi (categories res) @ pages\<rparr>\<rparr>)
       else res\<lparr>categories := (categories res)\<lparr>foreign :=
              foreign (categories res) @ pages\<rparr>\<rparr>)"
    unfolding state_in_body [symmetric]
    by (simp add: page_pymupdf_def classify_pymupdf_def heuristic_pymupdf_def Let_def)
  from US_STATES_shape have
    st: "length US_STATES = 51 \<and> distinct US_STATES \<and> list_all (\<lambda>s. length s = 2) US_STATES"
    by (simp add: list_all_iff)
  from py mu st show ?thesis by (intro conjI) simp_all
qed

lemma detect_page_paris:
  "detect page_paris = Some [''www.unitedcorporate.com Globex'', ''PARIS'']"
  by code_simp

lemma no_email_page_paris: "\<not> contains (lower page_paris) ''email''"
  by code_simp

theorem heuristic_national_substring_witness:
  "page_pymupdf [] 0 page_paris 1 no_results =
     \<lparr>categories = \<lparr>dnm = [], national_single = [1], national_multi = [], foreign = []\<rparr>,
      pending_decisions = []\<rparr>
   \<and> page_pypdf2 [] no_results (0, page_paris) =
     \<lparr>categories = \<lparr>dnm = [], national_single = [1], national_multi = [], foreign = []\<rparr>,
      pending_decisions = []\<rparr>
   \<and> contains ''PARIS'' ''PA''"
proof -
  have one: "py_range (int 0 + 1) (int 0 + 1 + 1) = [1]"
    by (simp add: py_range_def upto_rec1)
  have g: "get_close_matches (hd [''www.unitedcorporate.com Globex'', ''PARIS'']) [] (4 / 5) = []"
    by code_simp
  have pa: "''PA'' \<in> set US_STATES" by (simp add: US_STATES_def)
  have c: "contains ''PARIS'' ''PA''" by simp
  have "''PARIS'' \<in> set (drop 1 [''www.unitedcorporate.com Globex'', ''PARIS''])"
    by simp
  with pa c have ex: "\<exists>state \<in> set US_STATES.
      \<exists>l \<in> set (drop 1 [''www.unitedcorporate.com Globex'', ''PARIS'']). contains l state"
    by blast
  from heuristic_national_substring [OF detect_page_paris _ g no_email_page_paris,
      where res = no_results and page_no = 0 and tot = 1] ex one
  have "page_pymupdf [] 0 page_paris 1 no_results =
      no_results\<lparr>categories := (categories no_results)\<lparr>national_single :=
              national_single (categories no_results) @ [1]\<rparr>\<rparr>
    \<and> page_pypdf2 [] no_results (0, page_paris) =
      no_results\<lparr>categories := (categories no_results)\<lparr>national_single :=
              national_single (categories no_results) @ [int 0 + 1]\<rparr>\<rparr>"
    by (simp add: Let_def)
  with c show ?thesis by (simp add: no_results_def)
qed

text \<open>
  C4 (as the spec states it) fails: the only body line of the page is \<open>PARIS\<close>, whose
  only token is no abbreviation, and the PyMuPDF backend classifies the record National,
  since \<open>PA\<close> is a substring; so does the loop of the PyPDF2 backend.
\<close>

theorem national_by_substring_not_token:
  "detect page_paris = Some [''www.unitedcorporate.com Globex'', ''PARIS'']
   \<and> words_of (join_space [''PARIS'']) = [''PARIS'']
   \<and> \<not> list_ex (\<lambda>state. state \<in> set (words_of (join_space [''PARIS'']))) US_STATES
   \<and> \<not> contains (lower page_paris) ''email''
   \<and> process_statements_pymupdf [] [page_paris] =
       Some (Inr \<lparr>categories = \<lparr>dnm = [], national_single = [1], national_multi = [],
         foreign = []\<rparr>, pending_decisions = []\<rparr>)
   \<and> scan_pypdf2 [] [page_paris] =
       Inr \<lparr>categories = \<lparr>dnm = [], national_single = [1], national_multi = [],
         foreign = []\<rparr>, pending_decisions = []\<rparr>"
  by code_simp

text \<open>
  The split of the National records. In the PyMuPDF backend a record that the heuristic
  tier classifies National goes to NationalSingle when its page count is 1 and to
  NationalMulti otherwise. The loop of the PyPDF2 backend treats every record as one page
  and files the page under NationalSingle whatever the page count is.
\<close>

lemma national_split:
  assumes "detect text = Some ls" and "hd ls \<notin> set company_names"
    and "get_close_matches (hd ls) company_names (4 / 5) = []"
    and "\<not> contains (lower text) ''email''"
    and "list_ex (contains (join_space (drop 1 ls))) US_STATES"
  shows "page_pymupdf company_names page_no text tot res =
      (if tot = 1
       then res\<lparr>categories := (categories res)\<lparr>national_single :=
              national_single (categories res) @ [int page_no + 1]\<rparr>\<rparr>
       else res\<lparr>categories := (categories res)\<lparr>national_multi :=
              national_multi (categories res) @
                py_range (int page_no + 1) (int page_no + 1 + tot)\<rparr>\<rparr>)
    \<and> page_pypdf2 company_names res (page_no, text) =
      res\<lparr>categories := (categories res)\<lparr>national_single :=
              national_single (categories res) @ [int page_no + 1]\<rparr>\<rparr>"
proof -
  have one: "py_range (int page_no + 1) (int page_no + 1 + 1) = [int page_no + 1]"
    by (simp add: py_range_def upto_rec1)
  from assms one have mu: "page_pymupdf company_names page_no text tot res =
      (if tot = 1
       then res\<lparr>categories := (categories res)\<lparr>national_single :=
              national_single (categories res) @ [int page_no + 1]\<rparr>\<rparr>
       else res\<lparr>categories := (categories res)\<lparr>national_multi :=
              national_multi (categories res) @
                py_range (int page_no + 1) (int page_no + 1 + tot)\<rparr>\<rparr>)"
    by (simp add: page_pymupdf_def classify_pymupdf_def heuristic_pymupdf_def Let_def)
  from assms have py: "page_pypdf2 company_names res (page_no, text) =
      res\<lparr>categories := (categories res)\<lparr>national_single :=
              national_single (categories res) @ [int page_no + 1]\<rparr>\<rparr>"
    by (simp add: page_pypdf2_def classify_pypdf2_def heuristic_pypdf2_def Let_def)
  from mu py show ?thesis by (rule conjI)
qed


section \<open>Properties of the close-match tier\<close>

lemma blk_0: "blk a b i j 0"
  by (simp add: blk_def)

lemma blk_Suc: "blk a b i j k \<Longrightarrow> a ! (i + k) = b ! (j + k) \<Longrightarrow> blk a b i j (Suc k)"
  by (auto simp: blk_def less_Suc_eq)

lemma blk_pred:
  "blk a b i j k \<Longrightarrow> 0 < i \<Longrightarrow> 0 < j \<Longrightarrow> a ! (i - 1) = b ! (j - 1) \<Longrightarrow>
   blk a b (i - 1) (j - 1) (Suc k)"
proof -
  assume h: "blk a b i j k" "0 < i" "0 < j" "a ! (i - 1) = b ! (j - 1)"
  have "a ! (i - 1 + t) = b ! (j - 1 + t)" if "t < Suc k" for t
  proof (cases t)
    case 0
    with h show ?thesis by simp
  next
    case (Suc t')
    with that have "t' < k" by simp
    with h(1) have "a ! (i + t') = b ! (j + t')" by (simp add: blk_def)
    with Suc h(2,3) show ?thesis by simp
  qed
  then show ?thesis by (simp add: blk_def)
qed

lemma lm_inner_match:
  assumes row: "\<forall>j. j2len j \<le> i \<and> j2len j \<le> Suc j
        \<and> blk a b (i - j2len j) (Suc j - j2len j) (j2len j)"
    and js: "\<forall>j \<in> set js. b ! j = a ! i"
    and s: "lm_match a b (Suc i) s"
  shows "lm_match a b (Suc i) (lm_inner j2len i blo bhi js s)"
  using js s
proof (induction js arbitrary: s)
  case Nil
  then show ?case by simp
next
  case (Cons j js)
  obtain nj besti bestj bestsize where s: "s = (nj, besti, bestj, bestsize)"
    by (cases s) auto
  from Cons.prems have js: "\<forall>j \<in> set js. b ! j = a ! i" and bj: "b ! j = a ! i" by simp_all
  show ?case
  proof (cases "j < blo \<or> bhi \<le> j")
    case True
    with Cons.IH [OF js] Cons.prems(2) s show ?thesis by auto
  next
    case False
    define k where "k = (if j = 0 then 0 else j2len (j - 1)) + 1"
    have kb: "k \<le> Suc i \<and> k \<le> Suc j \<and> blk a b (Suc i - k) (Suc j - k) k"
    proof (cases "j = 0")
      case True
      then have "k = 1" by (simp add: k_def)
      with True bj show ?thesis by (simp add: blk_def)
    next
      case j0: False
      define m where "m = j2len (j - 1)"
      from row have m: "m \<le> i" "m \<le> Suc (j - 1)" "blk a b (i - m) (Suc (j - 1) - m) m"
        unfolding m_def by blast+
      from j0 have k: "k = Suc m" by (simp add: k_def m_def)
      from m(2) j0 have mj: "m \<le> j" by simp
      from m(3) j0 have "blk a b (i - m) (j - m) m" by simp
      moreover from m(1) mj bj have "a ! (i - m + m) = b ! (j - m + m)" by simp
      ultimately have "blk a b (i - m) (j - m) (Suc m)" by (rule blk_Suc)
      with k m(1) mj show ?thesis by simp
    qed
    have upd: "lm_match a b (Suc i) (nj(j := k), besti, bestj, bestsize)"
      using Cons.prems(2) kb by (auto simp: lm_match_def s)
    have new: "lm_match a b (Suc i) (nj(j := k), Suc i - k, Suc j - k, k)"
      using Cons.prems(2) kb by (auto simp: lm_match_def s)
    show ?thesis
      using False Cons.IH [OF js upd] Cons.IH [OF js new]
      by (simp add: s k_def Let_def)
  qed
qed

lemma b2j_elements: "\<forall>j \<in> set (b2j b c). b ! j = c"
  by (simp add: b2j_def)

lemma lm_outer_match:
  assumes "lm_match a b i s"
  shows "lm_match a b (Suc i) (lm_outer a b blo bhi s i)"
proof -
  obtain j2len besti bestj bestsize where s: "s = (j2len, besti, bestj, bestsize)"
    by (cases s) auto
  from assms have row: "\<forall>j. j2len j \<le> i \<and> j2len j \<le> Suc j
        \<and> blk a b (i - j2len j) (Suc j - j2len j) (j2len j)"
    and best: "blk a b besti bestj bestsize"
    by (simp_all add: lm_match_def s)
  from best have start: "lm_match a b (Suc i) (\<lambda>_. 0, besti, bestj, bestsize)"
    by (simp add: lm_match_def blk_0)
  from lm_inner_match [OF row b2j_elements start]
  show ?thesis by (simp add: lm_outer_def s)
qed

lemma lm_rows_match:
  "lm_match a b lo s \<Longrightarrow> lm_match a b (lo + m) (foldl (lm_outer a b blo bhi) s [lo..<lo + m])"
proof (induction m arbitrary: lo s)
  case 0
  then show ?case by simp
next
  case (Suc m)
  have "[lo..<lo + Suc m] = lo # [Suc lo..<Suc lo + m]"
    by (simp add: upt_rec)
  moreover have "lm_match a b (Suc lo) (lm_outer a b blo bhi s lo)"
    using Suc.prems by (rule lm_outer_match)
  ultimately show ?case
    using Suc.IH [of "Suc lo" "lm_outer a b blo bhi s lo"] by simp
qed

lemma extend_left_blk:
  "blk a b (fst t) (fst (snd t)) (snd (snd t)) \<Longrightarrow>
   (case extend_left a b alo blo t of (i, j, k) \<Rightarrow> blk a b i j k)"
proof (induction a b alo blo t rule: extend_left.induct)
  case (1 a b alo blo besti bestj bestsize)
  show ?case
  proof (cases "alo < besti \<and> blo < bestj \<and> a ! (besti - 1) = b ! (bestj - 1)")
    case True
    with "1.prems" have "blk a b (besti - 1) (bestj - 1) (Suc bestsize)"
      by (intro blk_pred) auto
    with "1.IH" True show ?thesis by (subst extend_left.simps) simp
  next
    case False
    with "1.prems" show ?thesis by (subst extend_left.simps) auto
  qed
qed

lemma extend_right_blk:
  "blk a b (fst t) (fst (snd t)) (snd (snd t)) \<Longrightarrow>
   (case extend_right a b ahi bhi t of (i, j, k) \<Rightarrow> blk a b i j k)"
proof (induction a b ahi bhi t rule: extend_right.induct)
  case (1 a b ahi bhi besti bestj bestsize)
  show ?case
  proof (cases "besti + bestsize < ahi \<and> bestj + bestsize < bhi
         \<and> a ! (besti + bestsize) = b ! (bestj + bestsize)")
    case True
    with "1.prems" have "blk a b besti bestj (Suc bestsize)"
      by (intro blk_Suc) auto
    with "1.IH" True show ?thesis by (subst extend_right.simps) simp
  next
    case False
    with "1.prems" show ?thesis by (subst extend_right.simps) auto
  qed
qed

lemma find_longest_match_blk:
  "find_longest_match a b alo ahi blo bhi = (i, j, k) \<Longrightarrow> blk a b i j k"
proof -
  assume r: "find_longest_match a b alo ahi blo bhi = (i, j, k)"
  define s where "s = foldl (lm_outer a b blo bhi) (\<lambda>_. 0, alo, blo, 0) [alo..<ahi]"
  obtain j2len t where st: "s = (j2len, t)" by (cases s) auto
  have init: "lm_match a b alo (\<lambda>_. 0, alo, blo, 0)"
    by (simp add: lm_match_def blk_0)
  have "\<exists>n. lm_match a b n s"
  proof (cases "alo \<le> ahi")
    case True
    with lm_rows_match [OF init, of "ahi - alo" blo bhi] show ?thesis
      by (auto simp: s_def)
  next
    case False
    with init show ?thesis by (auto simp: s_def)
  qed
  then have "blk a b (fst t) (fst (snd t)) (snd (snd t))"
    by (cases t) (auto simp: lm_match_def st)
  then have "blk a b (fst (extend_left a b alo blo t)) (fst (snd (extend_left a b alo blo t)))
      (snd (snd (extend_left a b alo blo t)))"
    using extend_left_blk [of a b t alo blo] by (auto split: prod.splits)
  then have "case extend_right a b ahi bhi (extend_left a b alo blo t) of
      (i, j, k) \<Rightarrow> blk a b i j k"
    by (rule extend_right_blk)
  moreover have "find_longest_match a b alo ahi blo bhi =
      extend_right a b ahi bhi (extend_left a b alo blo t)"
    using st by (cases t) (simp add: find_longest_match_def s_def [symmetric])
  ultimately show ?thesis using r by (auto split: prod.splits)
qed

lemma window_split:
  "lo \<le> m \<Longrightarrow> m \<le> hi \<Longrightarrow> window xs lo hi = window xs lo m @ window xs m hi"
proof -
  assume h: "lo \<le> m" "m \<le> hi"
  then have "hi - lo = (m - lo) + (hi - m)" by simp
  then have "take (hi - lo) (drop lo xs) =
      take (m - lo) (drop lo xs) @ take (hi - m) (drop (m - lo) (drop lo xs))"
    by (simp only: take_add)
  with h show ?thesis by (simp add: window_def)
qed

lemma window_blk:
  assumes "blk a b i j k" and "i + k \<le> length a" and "j + k \<le> length b"
  shows "window a i (i + k) = window b j (j + k)"
proof (rule nth_equalityI)
  from assms show "length (window a i (i + k)) = length (window b j (j + k))"
    by (simp add: window_def)
next
  fix t
  assume "t < length (window a i (i + k))"
  with assms have t: "t < k" by (simp add: window_def)
  with assms show "window a i (i + k) ! t = window b j (j + k) ! t"
    by (simp add: window_def blk_def)
qed

lemma length_window: "hi \<le> length xs \<Longrightarrow> length (window xs lo hi) = hi - lo"
  by (simp add: window_def)

lemma inter_three:
  "size (A1 \<inter># B1) + size C + size (A2 \<inter># B2)
     \<le> size ((A1 + C + A2) \<inter># (B1 + C + B2))"
proof -
  have "(A1 \<inter># B1) + C + (A2 \<inter># B2) \<subseteq># A1 + C + A2"
    by (intro subset_mset.add_mono) simp_all
  moreover have "(A1 \<inter># B1) + C + (A2 \<inter># B2) \<subseteq># B1 + C + B2"
    by (intro subset_mset.add_mono) simp_all
  ultimately have "(A1 \<inter># B1) + C + (A2 \<inter># B2) \<subseteq># (A1 + C + A2) \<inter># (B1 + C + B2)"
    by simp
  from size_mset_mono [OF this] show ?thesis by simp
qed

lemma matching_blocks_bound:
  "alo \<le> ahi \<Longrightarrow> ahi \<le> length a \<Longrightarrow> blo \<le> bhi \<Longrightarrow> bhi \<le> length b \<Longrightarrow>
   block_sizes (matching_blocks a b alo ahi blo bhi)
     \<le> size (mset (window a alo ahi) \<inter># mset (window b blo bhi))"
proof (induction "ahi - alo" arbitrary: alo ahi blo bhi rule: less_induct)
  case less
  obtain i j k where f: "find_longest_match a b alo ahi blo bhi = (i, j, k)"
    by (cases "find_longest_match a b alo ahi blo bhi") auto
  show ?case
  proof (cases "k = 0")
    case True
    with f show ?thesis
      by (subst matching_blocks.simps) (simp add: block_sizes_def)
  next
    case False
    from find_longest_match_ok [of alo ahi blo bhi a b] f False
    have ok: "alo \<le> i" "blo \<le> j" "i + k \<le> ahi" "j + k \<le> bhi"
      by (simp_all add: block_ok_def)
    from f have b: "blk a b i j k" by (rule find_longest_match_blk)
    define L where "L = (if alo < i \<and> blo < j then matching_blocks a b alo i blo j else [])"
    define R where "R = (if i + k < ahi \<and> j + k < bhi
      then matching_blocks a b (i + k) ahi (j + k) bhi else [])"
    have mb: "matching_blocks a b alo ahi blo bhi = L @ [(i, j, k)] @ R"
      using f False by (subst matching_blocks.simps) (simp add: L_def R_def)
    have lb: "block_sizes L \<le> size (mset (window a alo i) \<inter># mset (window b blo j))"
    proof (cases "alo < i \<and> blo < j")
      case True
      with ok False have "i - alo < ahi - alo" by arith
      from less.hyps [OF this] ok less.prems True show ?thesis
        by (simp add: L_def)
    next
      case False
      then show ?thesis by (auto simp: L_def block_sizes_def)
    qed
    have rb: "block_sizes R \<le> size (mset (window a (i + k) ahi) \<inter># mset (window b (j + k) bhi))"
    proof (cases "i + k < ahi \<and> j + k < bhi")
      case True
      with ok False have "ahi - (i + k) < ahi - alo" by arith
      from less.hyps [OF this] ok less.prems True show ?thesis
        by (simp add: R_def)
    next
      case False
      then show ?thesis by (auto simp: R_def block_sizes_def)
    qed
    have wa: "window a alo ahi = window a alo i @ window a i (i + k) @ window a (i + k) ahi"
      using ok window_split [of alo i ahi a] window_split [of i "i + k" ahi a] by simp
    have wb: "window b blo bhi = window b blo j @ window b j (j + k) @ window b (j + k) bhi"
      using ok window_split [of blo j bhi b] window_split [of j "j + k" bhi b] by simp
    have eq: "window a i (i + k) = window b j (j + k)"
      using b ok less.prems by (intro window_blk) simp_all
    have lk: "length (window b j (j + k)) = k"
      using ok less.prems by (simp add: length_window)
    have "block_sizes (matching_blocks a b alo ahi blo bhi) = block_sizes L + k + block_sizes R"
      by (simp add: mb block_sizes_def)
    also have "\<dots> \<le> size (mset (window a alo i) \<inter># mset (window b blo j))
        + size (mset (window b j (j + k)))
        + size (mset (window a (i + k) ahi) \<inter># mset (window b (j + k) bhi))"
      using lb rb lk by simp
    also have "\<dots> \<le> size ((mset (window a alo i) + mset (window b j (j + k))
          + mset (window a (i + k) ahi))
        \<inter># (mset (window b blo j) + mset (window b j (j + k)) + mset (window b (j + k) bhi)))"
      by (rule inter_three)
    also have "\<dots> = size (mset (window a alo ahi) \<inter># mset (window b blo bhi))"
      by (simp add: wa wb eq add.assoc)
    finally show ?thesis .
  qed
qed

lemma matches_le_inter:
  "block_sizes (matching_blocks a b 0 (length a) 0 (length b)) \<le> size (mset a \<inter># mset b)"
  using matching_blocks_bound [of 0 "length a" a 0 "length b" b] by (simp add: window_def)

text \<open>\<open>quick_ratio\<close> counts the elements the two strings share, with multiplicity.\<close>

lemma quick_count:
  assumes "\<forall>c. int (count R c) = max 0 (case avail c of Some v \<Rightarrow> v | None \<Rightarrow> int (count_list b c))"
  shows "snd (foldl (quick_step b) (avail, m) a) = m + size (mset a \<inter># R)"
  using assms
proof (induction a arbitrary: avail m R)
  case Nil
  then show ?case by simp
next
  case (Cons e a)
  define numb where "numb = (case avail e of Some v \<Rightarrow> v | None \<Rightarrow> int (count_list b e))"
  define avail' where "avail' = avail(e \<mapsto> numb - 1)"
  define m' where "m' = (if 0 < numb then m + 1 else m)"
  have step: "quick_step b (avail, m) e = (avail', m')"
    by (simp add: quick_step_def numb_def avail'_def m'_def Let_def)
  from Cons.prems have ce: "int (count R e) = max 0 numb"
    by (simp add: numb_def)
  have R': "\<forall>c. int (count (R - {#e#}) c) =
      max 0 (case avail' c of Some v \<Rightarrow> v | None \<Rightarrow> int (count_list b c))"
  proof
    fix c
    show "int (count (R - {#e#}) c) =
      max 0 (case avail' c of Some v \<Rightarrow> v | None \<Rightarrow> int (count_list b c))"
    proof (cases "c = e")
      case True
      with ce show ?thesis by (auto simp: avail'_def max_def split: if_splits)
    next
      case False
      with Cons.prems show ?thesis by (simp add: avail'_def)
    qed
  qed
  from Cons.IH [OF R'] have ih: "snd (foldl (quick_step b) (avail', m') a) =
      m' + size (mset a \<inter># (R - {#e#}))" .
  have "size (mset (e # a) \<inter># R) = (if 0 < numb then 1 else 0) + size (mset a \<inter># (R - {#e#}))"
  proof (cases "0 < numb")
    case True
    with ce have "e \<in># R" by (simp add: count_greater_zero_iff [symmetric] del: count_greater_zero_iff)
    then show ?thesis using True by (simp add: inter_add_left2)
  next
    case False
    with ce have "count R e = 0" by simp
    then have n: "e \<notin># R" by (simp add: count_eq_zero_iff)
    then have "R - {#e#} = R" by simp
    with n False show ?thesis by (simp add: inter_add_left1)
  qed
  with ih show ?case by (simp add: step m'_def)
qed

lemma quick_matches:
  "snd (foldl (quick_step b) (Map.empty, 0) a) = size (mset a \<inter># mset b)"
  using quick_count [where R = "mset b" and avail = Map.empty and b = b and m = 0 and a = a]
  by (simp add: count_mset)

lemma calculate_ratio_mono: "m \<le> n \<Longrightarrow> calculate_ratio m l \<le> calculate_ratio n l"
  by (simp add: calculate_ratio_def divide_right_mono)

lemma ratio_le_quick_ratio: "ratio a b \<le> quick_ratio a b"
  unfolding ratio_def quick_ratio_def Let_def quick_matches
  using matches_le_inter [of a b] by (intro calculate_ratio_mono) (simp add: block_sizes_def)

lemma ratio_le_real_quick_ratio: "ratio a b \<le> real_quick_ratio a b"
proof -
  have "size (mset a \<inter># mset b) \<le> size (mset a)" "size (mset a \<inter># mset b) \<le> size (mset b)"
    by (rule size_mset_mono, simp)+
  with matches_le_inter [of a b]
  have "block_sizes (matching_blocks a b 0 (length a) 0 (length b)) \<le> min (length a) (length b)"
    by simp
  then show ?thesis
    unfolding ratio_def real_quick_ratio_def Let_def
    by (intro calculate_ratio_mono) (simp add: block_sizes_def)
qed

lemma close_filter:
  "(cutoff \<le> real_quick_ratio x w \<and> cutoff \<le> quick_ratio x w \<and> cutoff \<le> ratio x w)
     = (cutoff \<le> ratio x w)"
  using ratio_le_quick_ratio [of x w] ratio_le_real_quick_ratio [of x w] by auto

lemma str_less_irrefl: "\<not> str_less x x"
  by (induction x) auto

lemma str_less_trans: "str_less x y \<Longrightarrow> str_less y z \<Longrightarrow> str_less x z"
proof (induction x y arbitrary: z rule: str_less.induct)
  case 1
  then show ?case by simp
next
  case (2 y ys)
  then show ?case by (cases z) auto
next
  case (3 x xs)
  then show ?case by simp
next
  case (4 x xs y ys)
  then show ?case by (cases z) auto
qed

lemma str_less_total: "str_less x y \<or> x = y \<or> str_less y x"
proof (induction x y rule: str_less.induct)
  case (4 x xs y ys)
  have "(of_char x :: nat) < of_char y \<or> x = y \<or> (of_char y :: nat) < of_char x"
    using of_char_eq_iff [of x y, where ?'a = nat] by linarith
  with 4 show ?case by auto
qed simp_all

lemma tuple_gt_trans: "tuple_gt a b \<Longrightarrow> tuple_gt b c \<Longrightarrow> tuple_gt a c"
  unfolding tuple_gt_def using str_less_trans by force

lemma tuple_gt_negtrans: "tuple_gt a c \<Longrightarrow> tuple_gt a b \<or> tuple_gt b c"
proof -
  assume ac: "tuple_gt a c"
  consider "fst b < fst a" | "fst a < fst b" | "fst b = fst a" by linarith
  then show ?thesis
  proof cases
    case 1
    then show ?thesis by (simp add: tuple_gt_def)
  next
    case 2
    with ac show ?thesis by (auto simp: tuple_gt_def)
  next
    case 3
    show ?thesis
    proof (cases "fst c < fst a")
      case True
      with 3 show ?thesis by (simp add: tuple_gt_def)
    next
      case False
      with ac have e: "fst a = fst c" and s: "str_less (snd c) (snd a)"
        by (auto simp: tuple_gt_def)
      from str_less_total [of "snd b" "snd a"]
      consider "str_less (snd b) (snd a)" | "snd b = snd a" | "str_less (snd a) (snd b)" by blast
      then show ?thesis
      proof cases
        case 1
        with 3 show ?thesis by (simp add: tuple_gt_def)
      next
        case 2
        with s 3 e show ?thesis by (simp add: tuple_gt_def)
      next
        case 3
        with s have "str_less (snd c) (snd b)" using str_less_trans by blast
        with \<open>fst b = fst a\<close> e show ?thesis by (simp add: tuple_gt_def)
      qed
    qed
  qed
qed

lemma fold_max:
  "foldl (\<lambda>best item. if tuple_gt item best then item else best) r rs \<in> set (r # rs)
   \<and> (\<forall>t \<in> set (r # rs).
        \<not> tuple_gt t (foldl (\<lambda>best item. if tuple_gt item best then item else best) r rs))"
proof (induction rs arbitrary: r)
  case Nil
  then show ?case by (simp add: tuple_gt_def str_less_irrefl)
next
  case (Cons item rs)
  let ?f = "\<lambda>best item. if tuple_gt item best then item else best"
  define r' where "r' = (if tuple_gt item r then item else r)"
  define res where "res = foldl ?f r' rs"
  from Cons [of r'] have mem: "res \<in> set (r' # rs)"
    and mx: "\<forall>t \<in> set (r' # rs). \<not> tuple_gt t res"
    by (simp_all add: res_def)
  have fold: "foldl ?f r (item # rs) = res"
    by (simp add: res_def r'_def)
  from mx have r'm: "\<not> tuple_gt r' res" by simp
  have a: "\<not> tuple_gt r res"
  proof (cases "tuple_gt item r")
    case True
    then have "r' = item" by (simp add: r'_def)
    with r'm True show ?thesis using tuple_gt_trans by blast
  next
    case False
    then have "r' = r" by (simp add: r'_def)
    with r'm show ?thesis by simp
  qed
  have b: "\<not> tuple_gt item res"
  proof (cases "tuple_gt item r")
    case True
    then have "r' = item" by (simp add: r'_def)
    with r'm show ?thesis by simp
  next
    case False
    with a show ?thesis using tuple_gt_negtrans by blast
  qed
  from mem have "res \<in> set (r # item # rs)" by (auto simp: r'_def split: if_splits)
  with a b mx show ?case unfolding fold by simp
qed

lemma nlargest1_max:
  "result \<noteq> [] \<Longrightarrow>
   \<exists>r. nlargest1 result = [r] \<and> r \<in> set result \<and> (\<forall>t \<in> set result. \<not> tuple_gt t r)"
proof (cases result)
  case Nil
  assume "result \<noteq> []"
  with Nil show ?thesis by simp
next
  case (Cons r rs)
  with fold_max [of r rs] show ?thesis by (simp add: nlargest1_def)
qed

lemma nlargest1_Nil: "nlargest1 [] = []"
  by (simp add: nlargest1_def)

lemma get_close_matches_unfold:
  "get_close_matches w names c =
     map snd (nlargest1 (map (\<lambda>x. (ratio x w, x)) (filter (\<lambda>x. c \<le> ratio x w) names)))"
  by (simp only: get_close_matches_def Let_def close_filter)

lemma get_close_matches_Nil:
  "get_close_matches w names (4 / 5) = [] \<longleftrightarrow> \<not> (\<exists>x \<in> set names. 4 / 5 \<le> ratio x w)"
proof (cases "filter (\<lambda>x. 4 / 5 \<le> ratio x w) names = []")
  case True
  then have "\<not> (\<exists>x \<in> set names. 4 / 5 \<le> ratio x w)"
    by (simp add: filter_empty_conv)
  with True show ?thesis
    by (simp add: get_close_matches_unfold nlargest1_Nil)
next
  case False
  then have ex: "\<exists>x \<in> set names. 4 / 5 \<le> ratio x w"
    by (simp add: filter_empty_conv)
  let ?result = "map (\<lambda>x. (ratio x w, x)) (filter (\<lambda>x. 4 / 5 \<le> ratio x w) names)"
  from False have "?result \<noteq> []" by simp
  from nlargest1_max [OF this] obtain r where "nlargest1 ?result = [r]" by blast
  then have "get_close_matches w names (4 / 5) \<noteq> []"
    by (simp add: get_close_matches_unfold)
  with ex show ?thesis by simp
qed

lemma get_close_matches_best:
  assumes "\<exists>x \<in> set names. 4 / 5 \<le> ratio x w"
  shows "\<exists>m. get_close_matches w names (4 / 5) = [m] \<and> best_match names w m"
proof -
  let ?result = "map (\<lambda>x. (ratio x w, x)) (filter (\<lambda>x. 4 / 5 \<le> ratio x w) names)"
  from assms have "?result \<noteq> []" by (simp add: filter_empty_conv)
  from nlargest1_max [OF this] obtain r where
    r: "nlargest1 ?result = [r]" "r \<in> set ?result" "\<forall>t \<in> set ?result. \<not> tuple_gt t r"
    by blast
  from r(2) have m: "snd r \<in> set names" "4 / 5 \<le> ratio (snd r) w" "fst r = ratio (snd r) w"
    by auto
  have "ratio x w < 4 / 5 \<or> ratio x w < ratio (snd r) w
      \<or> (ratio x w = ratio (snd r) w \<and> \<not> str_less (snd r) x)" if "x \<in> set names" for x
  proof (cases "4 / 5 \<le> ratio x w")
    case True
    with that have "(ratio x w, x) \<in> set ?result" by simp
    with r(3) have "\<not> tuple_gt (ratio x w, x) r" by blast
    with m(3) show ?thesis by (auto simp: tuple_gt_def)
  next
    case False
    then show ?thesis by simp
  qed
  with m have "best_match names w (snd r)"
    by (simp add: best_match_def list_all_iff)
  moreover from r(1) have "get_close_matches w names (4 / 5) = [snd r]"
    by (simp add: get_close_matches_unfold)
  ultimately show ?thesis by blast
qed

lemma best_match_unique: "best_match names w m \<Longrightarrow> best_match names w m' \<Longrightarrow> m = m'"
proof -
  assume a: "best_match names w m" and b: "best_match names w m'"
  from a b have "ratio m' w < ratio m w \<or> (ratio m' w = ratio m w \<and> \<not> str_less m m')"
    by (auto simp: best_match_def list_all_iff)
  moreover from a b have "ratio m w < ratio m' w \<or> (ratio m w = ratio m' w \<and> \<not> str_less m' m)"
    by (auto simp: best_match_def list_all_iff)
  ultimately have "\<not> str_less m m'" "\<not> str_less m' m" by auto
  with str_less_total [of m m'] show ?thesis by blast
qed

text \<open>
  C5 (as the code has it). For a record whose name equals no registry entry, a pending
  decision is produced (by the PyMuPDF backend for every page count \<open>tot\<close>, and by the
  loop of the PyPDF2 backend) exactly when some registry entry has similarity at least 0.8 to
  the name (the two cheaper bounds \<open>get_close_matches\<close> tests first never exclude such
  an entry: \<open>close_filter\<close>). Its suggested match is the one entry \<open>best_match\<close>
  describes: the best similarity, and among entries that tie for it the greatest string
  in code-point order, wherever it stands in the registry. Without such an entry the
  record falls through to the heuristic tier.
\<close>

theorem close_match_tier:
  assumes "detect text = Some ls" and "hd ls \<notin> set company_names"
  shows "(if \<exists>x \<in> set company_names. 4 / 5 \<le> ratio x (hd ls)
      then \<exists>m. best_match company_names (hd ls) m
            \<and> (\<forall>m'. best_match company_names (hd ls) m' \<longrightarrow> m' = m)
            \<and> page_pymupdf company_names page_no text tot res =
                res\<lparr>pending_decisions := pending_decisions res @
                  [\<lparr>page_num = int page_no + 1, company_name = hd ls, close_match = m,
                    total_pages = tot, lines = take 5 ls\<rparr>]\<rparr>
            \<and> page_pypdf2 company_names res (page_no, text) =
                res\<lparr>pending_decisions := pending_decisions res @
                  [\<lparr>page_num = int page_no + 1, company_name = hd ls, close_match = m,
                    total_pages = 1, lines = take 5 ls\<rparr>]\<rparr>
      else page_pymupdf company_names page_no text tot res =
             heuristic_pymupdf page_no text tot ls res
         \<and> page_pypdf2 company_names res (page_no, text) =
             heuristic_pypdf2 page_no text ls res)"
proof (cases "\<exists>x \<in> set company_names. 4 / 5 \<le> ratio x (hd ls)")
  case True
  from get_close_matches_best [OF True] obtain m where
    g: "get_close_matches (hd ls) company_names (4 / 5) = [m]"
    and b: "best_match company_names (hd ls) m" by blast
  from b have u: "\<forall>m'. best_match company_names (hd ls) m' \<longrightarrow> m' = m"
    using best_match_unique by blast
  from assms g have mu: "page_pymupdf company_names page_no text tot res =
                res\<lparr>pending_decisions := pending_decisions res @
                  [\<lparr>page_num = int page_no + 1, company_name = hd ls, close_match = m,
                    total_pages = tot, lines = take 5 ls\<rparr>]\<rparr>"
    by (simp add: page_pymupdf_def classify_pymupdf_def Let_def)
  from assms g have py: "page_pypdf2 company_names res (page_no, text) =
                res\<lparr>pending_decisions := pending_decisions res @
                  [\<lparr>page_num = int page_no + 1, company_name = hd ls, close_match = m,
                    total_pages = 1, lines = take 5 ls\<rparr>]\<rparr>"
    by (simp add: page_pypdf2_def classify_pypdf2_def Let_def)
  from b u mu py have "\<exists>m. best_match company_names (hd ls) m
            \<and> (\<forall>m'. best_match company_names (hd ls) m' \<longrightarrow> m' = m)
            \<and> page_pymupdf company_names page_no text tot res =
                res\<lparr>pending_decisions := pending_decisions res @
                  [\<lparr>page_num = int page_no + 1, company_name = hd ls, close_match = m,
                    total_pages = tot, lines = take 5 ls\<rparr>]\<rparr>
            \<and> page_pypdf2 company_names res (page_no, text) =
                res\<lparr>pending_decisions := pending_decisions res @
                  [\<lparr>page_num = int page_no + 1, company_name = hd ls, close_match = m,
                    total_pages = 1, lines = take 5 ls\<rparr>]\<rparr>"
    by (intro exI [of _ m] conjI)
  with True show ?thesis by (simp only: if_True)
next
  case False
  then have g: "get_close_matches (hd ls) company_names (4 / 5) = []"
    by (simp add: get_close_matches_Nil)
  from assms g have "page_pymupdf company_names page_no text tot res =
             heuristic_pymupdf page_no text tot ls res
         \<and> page_pypdf2 company_names res (page_no, text) =
             heuristic_pypdf2 page_no text ls res"
    by (simp add: page_pymupdf_def classify_pymupdf_def page_pypdf2_def classify_pypdf2_def
        Let_def)
  with False show ?thesis by (simp only: if_False)
qed

lemma detect_page_acme: "detect page_acme = Some [''914.949.9618 Acme Corp'', ''PO Box 1'']"
  by code_simp

lemma ratio_acme:
  "ratio ''914.949.9618 Acme Corp.'' ''914.949.9618 Acme Corp'' = 44 / 45"
  "ratio ''914.949.9618 Acme Corps'' ''914.949.9618 Acme Corp'' = 44 / 45"
  by code_simp+

theorem close_match_tier_witness:
  "\<exists>m. best_match [''914.949.9618 Acme Corp.'', ''914.949.9618 Acme Corps'']
          ''914.949.9618 Acme Corp'' m
       \<and> page_pymupdf [''914.949.9618 Acme Corp.'', ''914.949.9618 Acme Corps''] 0 page_acme
           1 no_results =
         no_results\<lparr>pending_decisions :=
           [\<lparr>page_num = 1, company_name = ''914.949.9618 Acme Corp'', close_match = m,
             total_pages = 1,
             lines = [''914.949.9618 Acme Corp'', ''PO Box 1'']\<rparr>]\<rparr>"
proof -
  have ex: "\<exists>x \<in> set [''914.949.9618 Acme Corp.'', ''914.949.9618 Acme Corps''].
      4 / 5 \<le> ratio x (hd [''914.949.9618 Acme Corp'', ''PO Box 1''])"
    by (simp add: ratio_acme)
  from close_match_tier [OF detect_page_acme,
      where company_names = "[''914.949.9618 Acme Corp.'', ''914.949.9618 Acme Corps'']"
        and page_no = 0 and res = no_results and tot = 1] ex
  show ?thesis by (auto simp: no_results_def)
qed

text \<open>
  C5 (as the spec states it) fails on ties: two registry entries have the same similarity
  to the name, and the suggested match is the second one, the greater string.
\<close>

theorem close_match_tie_not_registry_order:
  "ratio ''914.949.9618 Acme Corp.'' ''914.949.9618 Acme Corp'' =
     ratio ''914.949.9618 Acme Corps'' ''914.949.9618 Acme Corp''
   \<and> process_statements_pymupdf [''914.949.9618 Acme Corp.'', ''914.949.9618 Acme Corps'']
       [page_acme] =
       Some (Inr \<lparr>categories = \<lparr>dnm = [], national_single = [], national_multi = [],
          foreign = []\<rparr>,
        pending_decisions =
          [\<lparr>page_num = 1, company_name = ''914.949.9618 Acme Corp'',
            close_match = ''914.949.9618 Acme Corps'', total_pages = 1,
            lines = [''914.949.9618 Acme Corp'', ''PO Box 1'']\<rparr>]\<rparr>)
   \<and> scan_pypdf2 [''914.949.9618 Acme Corp.'', ''914.949.9618 Acme Corps'']
       [page_acme] =
       Inr \<lparr>categories = \<lparr>dnm = [], national_single = [], national_multi = [], foreign = []\<rparr>,
        pending_decisions =
          [\<lparr>page_num = 1, company_name = ''914.949.9618 Acme Corp'',
            close_match = ''914.949.9618 Acme Corps'', total_pages = 1,
            lines = [''914.949.9618 Acme Corp'', ''PO Box 1'']\<rparr>]\<rparr>"
  by code_simp

end
